theory Spec2Isabelle
  imports Complex_Main "HOL-Library.AList"
begin

section \<open>Core types (types.ts)\<close>

text \<open>
  JavaScript numbers that carry times, offsets and confidences are modelled as \<open>real\<close>
  (rounding of IEEE doubles is not modelled); counters are \<open>nat\<close>; status codes and byte
  counts are \<open>int\<close>.  A \<open>Record<string, string>\<close> is an association list read with
  \<open>map_of\<close>.  An optional field is an \<open>option\<close>.
\<close>

type_synonym headers = "(string \<times> string) list"

datatype ResourceType =
  Xhr | Fetch | Document | Stylesheet | Script | Image | Font | Websocket | Other

record CallFrame =
  functionName :: string
  scriptId :: string
  cf_url :: string
  cf_lineNumber :: int
  cf_columnNumber :: int

datatype StackTrace =
  StackTrace (description: "string option") (callFrames: "CallFrame list")
    (parent: "StackTrace option")

text \<open>The initiator type is a string: \<open>convertInitiator\<close> casts the CDP string unchecked.\<close>

record RequestInitiator =
  itype :: string
  stack :: "StackTrace option"
  iurl :: "string option"
  lineNumber :: "int option"
  columnNumber :: "int option"
  irequestId :: "string option"

record RequestTiming =
  startTime :: real
  responseTime :: "real option"
  endTime :: "real option"
  duration :: "real option"

record RedirectEntry =
  re_url :: string
  re_status :: int
  re_headers :: headers

datatype CorrelationMethod = StackTraceMethod | TimingSemantic | TimingOnly | Chain

record CapturedRequest =
  rid :: string
  index :: nat
  url :: string
  httpMethod :: string
  requestHeaders :: headers
  requestBody :: "string option"
  status :: int
  statusText :: string
  responseHeaders :: headers
  responseBody :: "string option"
  mimeType :: string
  responseSize :: int
  resourceType :: ResourceType
  initiator :: RequestInitiator
  timing :: RequestTiming
  redirectChain :: "RedirectEntry list"
  preflightFor :: "string option"
  preflightRequestId :: "string option"
  correlatedActionId :: "string option"
  correlationConfidence :: "real option"
  correlationMethod :: "CorrelationMethod option"

subsection \<open>CDP event parameters\<close>

record CDPRequest =
  q_url :: string
  q_method :: string
  q_headers :: headers
  postData :: "string option"

record CDPRedirectResponse =
  rr_status :: int
  rr_headers :: headers
  rr_statusText :: string

record CDPRequestWillBeSent =
  w_requestId :: string
  w_request :: CDPRequest
  w_timestamp :: real
  wallTime :: real
  w_initiator :: RequestInitiator
  redirectResponse :: "CDPRedirectResponse option"
  w_type :: "string option"

record CDPResponse =
  p_url :: string
  p_status :: int
  p_statusText :: string
  p_headers :: headers
  p_mimeType :: string

record CDPResponseReceived =
  r_requestId :: string
  response :: CDPResponse
  r_timestamp :: real
  r_type :: "string option"

record CDPLoadingFinished =
  f_requestId :: string
  f_timestamp :: real
  encodedDataLength :: int

record CDPLoadingFailed =
  x_requestId :: string
  errorText :: string
  x_timestamp :: real

section \<open>String helpers of the JavaScript runtime\<close>

fun startsWith :: "string \<Rightarrow> string \<Rightarrow> bool" where
  "startsWith s [] = True"
| "startsWith [] (p # ps) = False"
| "startsWith (c # cs) (p # ps) = (c = p \<and> startsWith cs ps)"

fun includesStr :: "string \<Rightarrow> string \<Rightarrow> bool" where
  "includesStr [] p = (p = [])"
| "includesStr (c # cs) p = (startsWith (c # cs) p \<or> includesStr cs p)"

definition digitChar :: "nat \<Rightarrow> char" where
  "digitChar d = char_of (48 + d)"

function numberToString :: "nat \<Rightarrow> string" where
  "numberToString n =
     (if n < 10 then [digitChar n]
      else numberToString (n div 10) @ [digitChar (n mod 10)])"
  by pat_completeness auto
termination
  by (relation "measure (\<lambda>n. n)") auto

text \<open>JavaScript truthiness of an optional string: present and not empty.\<close>

definition truthy :: "string option \<Rightarrow> bool" where
  "truthy v = (case v of None \<Rightarrow> False | Some s \<Rightarrow> s \<noteq> [])"

section \<open>The event ingester: class NetworkCapture\<close>

text \<open>
  The class keeps request objects that are shared between the in-flight map, the
  finalized store and the continuations of outstanding body fetches, and mutates them in
  place.  The model therefore keeps the objects in a heap \<open>objs\<close> (an address is a
  position; allocation appends) and lets the maps hold addresses.  A JavaScript \<open>Map\<close>
  is an association list in insertion order: \<open>AList.update\<close> keeps the position of an
  existing key and appends a new one, \<open>AList.delete\<close> removes the key.

  One heap object stands for a pending entry \<open>{request, redirectChain}\<close>.  After
  \<open>entry.request.redirectChain = entry.redirectChain\<close> both names denote one array;
  \<open>chainAliased\<close> records that, and a later push then reaches both.

  \<open>fetches\<close> holds the continuations of the body fetches that were started and have
  not settled yet, each with the request ID and the entry it captured.
  The optional observer \<open>onRequestComplete\<close> is taken to be unset.
\<close>

record PendingEntry =
  request :: CapturedRequest
  pe_redirectChain :: "RedirectEntry list"
  chainAliased :: bool

record NetworkCaptureOptions =
  maxRequests :: nat
  maxResponseBodySize :: nat
  excludePatterns :: "(string \<Rightarrow> bool) list"

definition DEFAULT_OPTIONS :: NetworkCaptureOptions where
  "DEFAULT_OPTIONS =
     \<lparr>maxRequests = 1000, maxResponseBodySize = 512 * 1024, excludePatterns = []\<rparr>"

record NetworkCapture =
  objs :: "PendingEntry list"
  requests :: "(string \<times> nat) list"
  requestOrder :: "string list"
  nextIndex :: nat
  timestampOffset :: "real option"
  pending :: "(string \<times> nat) list"
  fetches :: "(string \<times> nat) list"

definition newCapture :: NetworkCapture where
  "newCapture =
     \<lparr>objs = [], requests = [], requestOrder = [], nextIndex = 0,
      timestampOffset = None, pending = [], fetches = []\<rparr>"

definition toWallTimeMs :: "NetworkCapture \<Rightarrow> real \<Rightarrow> real" where
  "toWallTimeMs s cdpTimestamp =
     (case timestampOffset s of
        None \<Rightarrow> cdpTimestamp * 1000
      | Some off \<Rightarrow> (cdpTimestamp + off) * 1000)"

definition shouldExclude :: "NetworkCaptureOptions \<Rightarrow> string \<Rightarrow> bool" where
  "shouldExclude opts u = list_ex (\<lambda>pattern. pattern u) (excludePatterns opts)"

definition shouldFetchBody :: "CapturedRequest \<Rightarrow> bool" where
  "shouldFetchBody r =
     (let mime = mimeType r in
      \<not> (startsWith mime ''image/'' \<or> startsWith mime ''video/'' \<or>
         startsWith mime ''audio/'' \<or> includesStr mime ''font'' \<or> includesStr mime ''wasm''))"

definition truncateBody :: "NetworkCaptureOptions \<Rightarrow> string \<Rightarrow> bool \<Rightarrow> string" where
  "truncateBody opts body base64Encoded =
     (if base64Encoded then ''[base64 encoded, '' @ numberToString (length body) @ '' chars]''
      else if length body > maxResponseBodySize opts then
        take (maxResponseBodySize opts) body @ [CHR 0x0A] @ ''... [truncated, '' @
          numberToString (length body) @ '' total chars]''
      else body)"

primrec convertStackTrace :: "StackTrace \<Rightarrow> StackTrace" where
  "convertStackTrace (StackTrace d fs p) =
     StackTrace d
       (map (\<lambda>f. \<lparr>functionName = functionName f, scriptId = scriptId f, cf_url = cf_url f,
                  cf_lineNumber = cf_lineNumber f, cf_columnNumber = cf_columnNumber f\<rparr>) fs)
       (map_option convertStackTrace p)"

definition convertInitiator :: "RequestInitiator \<Rightarrow> RequestInitiator" where
  "convertInitiator cdpInitiator =
     \<lparr>itype = itype cdpInitiator,
      stack = map_option convertStackTrace (stack cdpInitiator),
      iurl = iurl cdpInitiator,
      lineNumber = lineNumber cdpInitiator,
      columnNumber = columnNumber cdpInitiator,
      irequestId = irequestId cdpInitiator\<rparr>"

text \<open>
  The lookup in \<open>typeMap\<close>; keys that a JavaScript object inherits from its prototype
  (such as \<open>constructor\<close>) are not modelled and classify as \<open>other\<close>.
\<close>

definition classifyResourceType :: "string option \<Rightarrow> ResourceType" where
  "classifyResourceType cdpType =
     (if \<not> truthy cdpType then Other
      else let t = the cdpType in
        if t = ''XHR'' then Xhr
        else if t = ''Fetch'' then Fetch
        else if t = ''Document'' then Document
        else if t = ''Stylesheet'' then Stylesheet
        else if t = ''Script'' then Script
        else if t = ''Image'' then Image
        else if t = ''Font'' then Font
        else if t = ''WebSocket'' then Websocket
        else Other)"

text \<open>In-place mutation of the object at an address.\<close>

definition modify :: "nat \<Rightarrow> (PendingEntry \<Rightarrow> PendingEntry) \<Rightarrow> NetworkCapture \<Rightarrow> NetworkCapture" where
  "modify a f s = s\<lparr>objs := (objs s)[a := f (objs s ! a)]\<rparr>"

definition modifyRequest :: "nat \<Rightarrow> (CapturedRequest \<Rightarrow> CapturedRequest) \<Rightarrow> NetworkCapture \<Rightarrow> NetworkCapture" where
  "modifyRequest a f s = modify a (\<lambda>e. e\<lparr>request := f (request e)\<rparr>) s"

text \<open>\<open>Map.get\<close> followed by a mutation of the object found, if any.\<close>

definition modifyAt :: "(string \<times> nat) list \<Rightarrow> string \<Rightarrow> (CapturedRequest \<Rightarrow> CapturedRequest) \<Rightarrow>
    NetworkCapture \<Rightarrow> NetworkCapture" where
  "modifyAt m k f s = (case map_of m k of None \<Rightarrow> s | Some a \<Rightarrow> modifyRequest a f s)"

text \<open>The redirect branch: push the previous hop, then overwrite the request data.\<close>

definition recordRedirect :: "CDPRequestWillBeSent \<Rightarrow> CDPRedirectResponse \<Rightarrow> PendingEntry \<Rightarrow> PendingEntry" where
  "recordRedirect params rr existing =
     (let hop = \<lparr>re_url = url (request existing), re_status = rr_status rr,
                 re_headers = rr_headers rr\<rparr>;
          r = request existing
      in existing\<lparr>
           pe_redirectChain := pe_redirectChain existing @ [hop],
           request := r\<lparr>
             redirectChain :=
               (if chainAliased existing then redirectChain r @ [hop] else redirectChain r),
             url := q_url (w_request params),
             httpMethod := q_method (w_request params),
             requestHeaders := q_headers (w_request params),
             requestBody := postData (w_request params),
             timing := (timing r)\<lparr>startTime := wallTime params * 1000\<rparr>\<rparr>\<rparr>)"

definition newEntry :: "nat \<Rightarrow> CDPRequestWillBeSent \<Rightarrow> PendingEntry" where
  "newEntry idx params =
     \<lparr>request =
        \<lparr>rid = w_requestId params,
         index = idx,
         url = q_url (w_request params),
         httpMethod = q_method (w_request params),
         requestHeaders = q_headers (w_request params),
         requestBody = postData (w_request params),
         status = 0,
         statusText = '''',
         responseHeaders = [],
         responseBody = None,
         mimeType = '''',
         responseSize = 0,
         resourceType = classifyResourceType (w_type params),
         initiator = convertInitiator (w_initiator params),
         timing = \<lparr>startTime = wallTime params * 1000, responseTime = None,
                    endTime = None, duration = None\<rparr>,
         redirectChain = [],
         preflightFor = None,
         preflightRequestId = None,
         correlatedActionId = None,
         correlationConfidence = None,
         correlationMethod = None\<rparr>,
      pe_redirectChain = [],
      chainAliased = False\<rparr>"

text \<open>
  The two \<open>for ... of\<close> loops of the non-preflight branch: the first entry of the map, in
  insertion order, whose request has \<open>preflightFor\<close> equal to the new request ID.
\<close>

definition findPreflightFor :: "NetworkCapture \<Rightarrow> (string \<times> nat) list \<Rightarrow> string \<Rightarrow> string option" where
  "findPreflightFor s m requestId =
     map_option fst
       (find (\<lambda>(k, a). preflightFor (request (objs s ! a)) = Some requestId) m)"

definition backfill :: "(string \<times> nat) list \<Rightarrow> string \<Rightarrow> NetworkCapture \<Rightarrow> NetworkCapture" where
  "backfill m requestId s =
     (case findPreflightFor s m requestId of
        None \<Rightarrow> s
      | Some k \<Rightarrow> modifyAt (pending s) requestId (\<lambda>r. r\<lparr>preflightRequestId := Some k\<rparr>) s)"

definition detectPreflight :: "CDPRequestWillBeSent \<Rightarrow> NetworkCapture \<Rightarrow> NetworkCapture" where
  "detectPreflight params s =
     (if itype (w_initiator params) = ''preflight'' \<and> truthy (irequestId (w_initiator params))
      then
        let target = the (irequestId (w_initiator params));
            s1 = modifyAt (pending s) (w_requestId params)
                   (\<lambda>r. r\<lparr>preflightFor := Some target\<rparr>) s;
            s2 = modifyAt (pending s1) target
                   (\<lambda>r. r\<lparr>preflightRequestId := Some (w_requestId params)\<rparr>) s1
        in modifyAt (requests s2) target
             (\<lambda>r. r\<lparr>preflightRequestId := Some (w_requestId params)\<rparr>) s2
      else
        backfill (requests s) (w_requestId params)
          (backfill (pending s) (w_requestId params) s))"

definition handleRequestWillBeSent :: "NetworkCaptureOptions \<Rightarrow> CDPRequestWillBeSent \<Rightarrow>
    NetworkCapture \<Rightarrow> NetworkCapture" where
  "handleRequestWillBeSent opts params s0 =
     (if shouldExclude opts (q_url (w_request params)) then s0
      else
        let s = (if timestampOffset s0 = None
                 then s0\<lparr>timestampOffset := Some (wallTime params - w_timestamp params)\<rparr>
                 else s0)
        in case (redirectResponse params, map_of (pending s) (w_requestId params)) of
             (Some rr, Some a) \<Rightarrow> modify a (recordRedirect params rr) s
           | _ \<Rightarrow>
             detectPreflight params
               (s\<lparr>objs := objs s @ [newEntry (nextIndex s) params],
                  pending := AList.update (w_requestId params) (length (objs s)) (pending s),
                  nextIndex := Suc (nextIndex s)\<rparr>))"

definition handleResponseReceived :: "CDPResponseReceived \<Rightarrow> NetworkCapture \<Rightarrow> NetworkCapture" where
  "handleResponseReceived params s =
     (case map_of (pending s) (r_requestId params) of
        None \<Rightarrow> s
      | Some a \<Rightarrow>
          modifyRequest a
            (\<lambda>r. r\<lparr>status := p_status (response params),
                   statusText := p_statusText (response params),
                   responseHeaders := p_headers (response params),
                   mimeType := p_mimeType (response params),
                   timing := (timing r)\<lparr>responseTime := Some (toWallTimeMs s (r_timestamp params))\<rparr>,
                   resourceType :=
                     (if truthy (r_type params) then classifyResourceType (r_type params)
                      else resourceType r)\<rparr>) s)"

definition finalizeRequest :: "NetworkCaptureOptions \<Rightarrow> string \<Rightarrow> nat \<Rightarrow> NetworkCapture \<Rightarrow> NetworkCapture" where
  "finalizeRequest opts requestId a s0 =
     (let s1 = s0\<lparr>pending := AList.delete requestId (pending s0)\<rparr>;
          s2 = (if length (requests s1) \<ge> maxRequests opts then
                  (case requestOrder s1 of
                     [] \<Rightarrow> s1
                   | oldest # rest \<Rightarrow>
                       (if oldest \<noteq> [] then
                          s1\<lparr>requestOrder := rest, requests := AList.delete oldest (requests s1)\<rparr>
                        else s1\<lparr>requestOrder := rest\<rparr>))
                else s1)
      in s2\<lparr>requests := AList.update requestId a (requests s2),
            requestOrder := requestOrder s2 @ [requestId]\<rparr>)"

text \<open>Stamp end time and duration, then alias the accumulated redirect chain.\<close>

definition stampEnd :: "real \<Rightarrow> PendingEntry \<Rightarrow> PendingEntry" where
  "stampEnd t e =
     (let r = request e in
      e\<lparr>request := r\<lparr>
           timing := (timing r)\<lparr>endTime := Some t, duration := Some (t - startTime (timing r))\<rparr>,
           redirectChain := pe_redirectChain e\<rparr>,
        chainAliased := True\<rparr>)"

text \<open>
  \<open>handleLoadingFinished\<close>; \<open>hasCallback\<close> says whether \<open>getResponseBody\<close> was passed.
  When the fetch is started the entry stays in the in-flight map and the continuation is
  queued; it runs in \<open>bodyFetchSettled\<close>.
\<close>

definition handleLoadingFinished :: "NetworkCaptureOptions \<Rightarrow> CDPLoadingFinished \<Rightarrow> bool \<Rightarrow>
    NetworkCapture \<Rightarrow> NetworkCapture" where
  "handleLoadingFinished opts params hasCallback s =
     (case map_of (pending s) (f_requestId params) of
        None \<Rightarrow> s
      | Some a \<Rightarrow>
          let s1 = modifyRequest a (\<lambda>r. r\<lparr>responseSize := encodedDataLength params\<rparr>) s;
              s2 = modify a (stampEnd (toWallTimeMs s1 (f_timestamp params))) s1
          in if hasCallback \<and> shouldFetchBody (request (objs s2 ! a))
             then s2\<lparr>fetches := fetches s2 @ [(f_requestId params, a)]\<rparr>
             else finalizeRequest opts (f_requestId params) a s2)"

datatype FetchOutcome = Fulfilled "(string \<times> bool) option" | Rejected

text \<open>
  The \<open>.then\<close> / \<open>.catch\<close> continuation of the \<open>k\<close>-th outstanding body fetch.
\<close>

definition bodyFetchSettled :: "NetworkCaptureOptions \<Rightarrow> nat \<Rightarrow> FetchOutcome \<Rightarrow>
    NetworkCapture \<Rightarrow> NetworkCapture" where
  "bodyFetchSettled opts k outcome s =
     (if k < length (fetches s) then
        let (requestId, a) = fetches s ! k;
            s1 = s\<lparr>fetches := take k (fetches s) @ drop (Suc k) (fetches s)\<rparr>;
            s2 = (case outcome of
                    Fulfilled (Some (body, base64Encoded)) \<Rightarrow>
                      modifyRequest a
                        (\<lambda>r. r\<lparr>responseBody := Some (truncateBody opts body base64Encoded)\<rparr>) s1
                  | _ \<Rightarrow> s1)
        in finalizeRequest opts requestId a s2
      else s)"

definition handleLoadingFailed :: "NetworkCaptureOptions \<Rightarrow> CDPLoadingFailed \<Rightarrow>
    NetworkCapture \<Rightarrow> NetworkCapture" where
  "handleLoadingFailed opts params s =
     (case map_of (pending s) (x_requestId params) of
        None \<Rightarrow> s
      | Some a \<Rightarrow>
          let s1 = modifyRequest a
                     (\<lambda>r. if status r = 0 then r\<lparr>status := 0, statusText := errorText params\<rparr>
                          else r) s;
              s2 = modify a (stampEnd (toWallTimeMs s1 (x_timestamp params))) s1
          in finalizeRequest opts (x_requestId params) a s2)"

definition clear :: "NetworkCapture \<Rightarrow> NetworkCapture" where
  "clear s = s\<lparr>requests := [], requestOrder := [], pending := [], nextIndex := 0,
               timestampOffset := None\<rparr>"

definition getRequest :: "NetworkCapture \<Rightarrow> string \<Rightarrow> CapturedRequest option" where
  "getRequest s requestId = map_option (\<lambda>a. request (objs s ! a)) (map_of (requests s) requestId)"

text \<open>The in-flight record of an ID, read the way \<open>getRequest\<close> reads the store.\<close>

definition pendingRequest :: "NetworkCapture \<Rightarrow> string \<Rightarrow> CapturedRequest option" where
  "pendingRequest s requestId = map_option (\<lambda>a. request (objs s ! a)) (map_of (pending s) requestId)"

definition storeSize :: "NetworkCapture \<Rightarrow> nat" where
  "storeSize s = length (requests s)"

definition pendingCount :: "NetworkCapture \<Rightarrow> nat" where
  "pendingCount s = length (pending s)"

subsection \<open>Event sequences\<close>

datatype Event =
  RequestWillBeSent CDPRequestWillBeSent
| ResponseReceived CDPResponseReceived
| LoadingFinished CDPLoadingFinished bool
| LoadingFailed CDPLoadingFailed
| Clear
| BodyFetchSettled nat FetchOutcome

fun step :: "NetworkCaptureOptions \<Rightarrow> NetworkCapture \<Rightarrow> Event \<Rightarrow> NetworkCapture" where
  "step opts s (RequestWillBeSent p) = handleRequestWillBeSent opts p s"
| "step opts s (ResponseReceived p) = handleResponseReceived p s"
| "step opts s (LoadingFinished p cb) = handleLoadingFinished opts p cb s"
| "step opts s (LoadingFailed p) = handleLoadingFailed opts p s"
| "step opts s Clear = clear s"
| "step opts s (BodyFetchSettled k outcome) = bodyFetchSettled opts k outcome s"

definition run :: "NetworkCaptureOptions \<Rightarrow> NetworkCapture \<Rightarrow> Event list \<Rightarrow> NetworkCapture" where
  "run opts s es = foldl (step opts) s es"

subsection \<open>Test events\<close>

definition scriptInitiator :: RequestInitiator where
  "scriptInitiator =
     \<lparr>itype = ''script'', stack = None, iurl = None, lineNumber = None,
      columnNumber = None, irequestId = None\<rparr>"

definition getEvent :: "string \<Rightarrow> string \<Rightarrow> real \<Rightarrow> real \<Rightarrow> CDPRequestWillBeSent" where
  "getEvent i u wall ts =
     \<lparr>w_requestId = i,
      w_request = \<lparr>q_url = u, q_method = ''GET'', q_headers = [], postData = None\<rparr>,
      w_timestamp = ts, wallTime = wall, w_initiator = scriptInitiator,
      redirectResponse = None, w_type = None\<rparr>"

definition okResponse :: "string \<Rightarrow> string \<Rightarrow> real \<Rightarrow> CDPResponseReceived" where
  "okResponse i u ts =
     \<lparr>r_requestId = i,
      response = \<lparr>p_url = u, p_status = 200, p_statusText = ''OK'', p_headers = [],
                  p_mimeType = ''text/html''\<rparr>,
      r_timestamp = ts, r_type = None\<rparr>"

definition finished :: "string \<Rightarrow> real \<Rightarrow> CDPLoadingFinished" where
  "finished i ts = \<lparr>f_requestId = i, f_timestamp = ts, encodedDataLength = 100\<rparr>"

text \<open>A complete lifecycle without body fetch, as the ring-buffer test feeds it.\<close>

definition lifecycle :: "string \<Rightarrow> real \<Rightarrow> Event list" where
  "lifecycle i k =
     [RequestWillBeSent (getEvent i (''/page/'' @ i) (1000 + k) (10 + k)),
      ResponseReceived (okResponse i (''/page/'' @ i) (10 + k + 1 / 10)),
      LoadingFinished (finished i (10 + k + 11 / 100)) False]"

definition staleFetchTrace :: "Event list" where
  "staleFetchTrace =
     [RequestWillBeSent (getEvent ''req_1'' ''/users'' 1000 10),
      ResponseReceived (okResponse ''req_1'' ''/users'' (10 + 1 / 10)),
      LoadingFinished (finished ''req_1'' (10 + 11 / 100)) True,
      Clear]"

definition staleSettle :: Event where
  "staleSettle = BodyFetchSettled 0 (Fulfilled (Some (''stale data'', False)))"

definition smallOptions :: "nat \<Rightarrow> NetworkCaptureOptions" where
  "smallOptions n = DEFAULT_OPTIONS\<lparr>maxRequests := n\<rparr>"

fun lifecycles :: "(string \<times> real) list \<Rightarrow> Event list" where
  "lifecycles [] = []"
| "lifecycles ((i, k) # rest) = lifecycle i k @ lifecycles rest"

definition ringBufferTrace :: "Event list" where
  "ringBufferTrace =
     lifecycles [(''R0'', 0), (''R1'', 1), (''R2'', 2), (''R3'', 3), (''R4'', 4)]"

text \<open>The ID \<open>A\<close> goes through two lifecycles, then three more requests complete.\<close>

definition reusedIdPrefix :: "Event list" where
  "reusedIdPrefix = lifecycles [(''A'', 0), (''A'', 1), (''B'', 2), (''C'', 3)]"

definition reusedIdTrace :: "Event list" where
  "reusedIdTrace = lifecycles [(''A'', 0), (''A'', 1), (''B'', 2), (''C'', 3), (''D'', 4)]"

definition preflightInitiator :: "string \<Rightarrow> RequestInitiator" where
  "preflightInitiator target =
     \<lparr>itype = ''preflight'', stack = None, iurl = None, lineNumber = None,
      columnNumber = None, irequestId = Some target\<rparr>"

definition preflightEvent :: "string \<Rightarrow> string \<Rightarrow> string \<Rightarrow> real \<Rightarrow> real \<Rightarrow> CDPRequestWillBeSent" where
  "preflightEvent i u target wall ts =
     \<lparr>w_requestId = i,
      w_request = \<lparr>q_url = u, q_method = ''OPTIONS'', q_headers = [], postData = None\<rparr>,
      w_timestamp = ts, wallTime = wall, w_initiator = preflightInitiator target,
      redirectResponse = None, w_type = None\<rparr>"

text \<open>Two preflights name the same target; all three requests complete.\<close>

definition twoPreflightsTrace :: "Event list" where
  "twoPreflightsTrace =
     [RequestWillBeSent (getEvent ''actual'' ''/api'' 1000 10),
      RequestWillBeSent (preflightEvent ''pre1'' ''/api'' ''actual'' 1001 11),
      RequestWillBeSent (preflightEvent ''pre2'' ''/api'' ''actual'' 1002 12),
      LoadingFinished (finished ''pre1'' 13) False,
      LoadingFinished (finished ''pre2'' 14) False,
      LoadingFinished (finished ''actual'' 15) False]"

text \<open>The out-of-order pairing test: the actual request completes before its preflight is sent.\<close>

definition reversePreflightTrace :: "Event list" where
  "reversePreflightTrace =
     [RequestWillBeSent (getEvent ''req_actual'' ''/api'' 1000 10),
      LoadingFinished (finished ''req_actual'' 11) False,
      RequestWillBeSent (preflightEvent ''req_preflight'' ''/api'' ''req_actual'' 1002 12),
      LoadingFinished (finished ''req_preflight'' 13) False]"

definition redirectEvent :: "string \<Rightarrow> string \<Rightarrow> int \<Rightarrow> real \<Rightarrow> real \<Rightarrow> CDPRequestWillBeSent" where
  "redirectEvent i u st wall ts =
     (getEvent i u wall ts)\<lparr>redirectResponse :=
        Some \<lparr>rr_status = st, rr_headers = [], rr_statusText = ''''\<rparr>\<rparr>"

text \<open>The redirect-coalescing scenario: \<open>/old\<close>, then 301 to \<open>/new\<close>, then 302 to \<open>/final\<close>.\<close>

definition redirectTrace :: "Event list" where
  "redirectTrace =
     [RequestWillBeSent (getEvent ''R'' ''/old'' 1000 10),
      RequestWillBeSent (redirectEvent ''R'' ''/new'' 301 1001 11),
      RequestWillBeSent (redirectEvent ''R'' ''/final'' 302 1002 12),
      ResponseReceived (okResponse ''R'' ''/final'' 13),
      LoadingFinished (finished ''R'' 14) False]"

text \<open>A redirect-bearing event arrives for an ID that has no in-flight record.\<close>

definition orphanRedirectTrace :: "Event list" where
  "orphanRedirectTrace =
     [RequestWillBeSent (redirectEvent ''R'' ''/new'' 301 1001 11),
      LoadingFinished (finished ''R'' 12) False]"

text \<open>The first hop matches an exclude pattern, the hop it redirects to does not.\<close>

definition excludeOldOptions :: NetworkCaptureOptions where
  "excludeOldOptions = DEFAULT_OPTIONS\<lparr>excludePatterns := [\<lambda>u. includesStr u ''old'']\<rparr>"

definition excludedHopTrace :: "Event list" where
  "excludedHopTrace =
     [RequestWillBeSent (getEvent ''R'' ''/old'' 1000 10),
      RequestWillBeSent (redirectEvent ''R'' ''/new'' 301 1001 11),
      LoadingFinished (finished ''R'' 12) False]"

text \<open>
  Two lifecycles fill a store of two records; a third request is sent and answered
  (\<open>fillTrace\<close>) and then finishes (\<open>commitC\<close>).
\<close>

definition fillTrace :: "Event list" where
  "fillTrace = lifecycles [(''A'', 0), (''B'', 1)] @ butlast (lifecycle ''C'' 2)"

definition commitC :: Event where
  "commitC = last (lifecycle ''C'' 2)"

text \<open>
  A preflight and its target, in order; the body of the preflight is fetched, and the
  preflight is committed when the fetch settles.
\<close>

definition fetchedPreflightTrace :: "Event list" where
  "fetchedPreflightTrace =
     [RequestWillBeSent (preflightEvent ''pre'' ''/api'' ''act'' 1000 10),
      RequestWillBeSent (getEvent ''act'' ''/api'' 1001 11),
      LoadingFinished (finished ''pre'' 12) True,
      BodyFetchSettled 0 (Fulfilled (Some (''ok'', False))),
      LoadingFinished (finished ''act'' 13) False]"

text \<open>The ID of a preflight is used again by a later request while the preflight is in flight.\<close>

definition reusedPreflightIdTrace :: "Event list" where
  "reusedPreflightIdTrace =
     [RequestWillBeSent (preflightEvent ''pre'' ''/api'' ''act'' 1000 10),
      RequestWillBeSent (getEvent ''act'' ''/api'' 1001 11),
      RequestWillBeSent (getEvent ''pre'' ''/other'' 1002 12),
      LoadingFinished (finished ''pre'' 13) False,
      LoadingFinished (finished ''act'' 14) False]"

text \<open>
  The body fetch of a preflight is outstanding when \<open>clear()\<close> is called; its target is
  sent after the clear, and the fetch settles after that.
\<close>

definition stalePreflightTrace :: "Event list" where
  "stalePreflightTrace =
     [RequestWillBeSent (preflightEvent ''pre'' ''/api'' ''act'' 1000 10),
      LoadingFinished (finished ''pre'' 11) True,
      Clear,
      RequestWillBeSent (getEvent ''act'' ''/api'' 1002 12),
      BodyFetchSettled 0 (Fulfilled None),
      LoadingFinished (finished ''act'' 13) False]"

text \<open>The target of a preflight is itself announced as a preflight.\<close>

definition nestedPreflightTrace :: "Event list" where
  "nestedPreflightTrace =
     [RequestWillBeSent (preflightEvent ''pre'' ''/api'' ''act'' 1000 10),
      RequestWillBeSent (preflightEvent ''act'' ''/api'' ''other'' 1001 11),
      LoadingFinished (finished ''pre'' 12) False,
      LoadingFinished (finished ''act'' 13) False]"

text \<open>
  Two preflights name the same target; the second is still in flight when the first and
  the target are finalized.
\<close>

definition unfinishedPreflightTrace :: "Event list" where
  "unfinishedPreflightTrace =
     [RequestWillBeSent (getEvent ''actual'' ''/api'' 1000 10),
      RequestWillBeSent (preflightEvent ''pre1'' ''/api'' ''actual'' 1001 11),
      RequestWillBeSent (preflightEvent ''pre2'' ''/api'' ''actual'' 1002 12),
      LoadingFinished (finished ''pre1'' 13) False,
      LoadingFinished (finished ''actual'' 15) False]"

subsection \<open>Predicates used in the statements\<close>

text \<open>
  The part of the state that eviction works on: the keys of the store in insertion order
  and \<open>requestOrder\<close>; \<open>commitKeys\<close> is what \<open>finalizeRequest\<close> does to it.
\<close>

definition storeKeys :: "NetworkCapture \<Rightarrow> string list \<times> string list" where
  "storeKeys s = (map fst (requests s), requestOrder s)"

definition commitKeys :: "nat \<Rightarrow> (string list \<times> string list) \<Rightarrow> string \<Rightarrow> (string list \<times> string list)" where
  "commitKeys m = (\<lambda>(ks, ord) i.
     let (ks1, ord1) =
           (if length ks \<ge> m then
              (case ord of
                 [] \<Rightarrow> (ks, ord)
               | oldest # rest \<Rightarrow> (if oldest \<noteq> [] then removeAll oldest ks else ks, rest))
            else (ks, ord))
     in (if i \<in> set ks1 then ks1 else ks1 @ [i], ord1 @ [i]))"

text \<open>A \<open>RequestSent\<close> event that passes the URL exclusion.\<close>

definition isIngestedRequestSent :: "NetworkCaptureOptions \<Rightarrow> Event \<Rightarrow> bool" where
  "isIngestedRequestSent opts e =
     (case e of RequestWillBeSent p \<Rightarrow> \<not> shouldExclude opts (q_url (w_request p)) | _ \<Rightarrow> False)"

text \<open>The state of the counters right after \<open>clear()\<close>.\<close>

definition cleared :: "NetworkCapture \<Rightarrow> bool" where
  "cleared s = (pending s = [] \<and> nextIndex s = 0 \<and> timestampOffset s = None)"

text \<open>The ID, \<open>preflightFor\<close> and \<open>preflightRequestId\<close> of a finalized record.\<close>

definition preflightLinks :: "NetworkCapture \<Rightarrow> string \<Rightarrow> (string \<times> string option \<times> string option) option" where
  "preflightLinks s i =
     map_option (\<lambda>r. (rid r, preflightFor r, preflightRequestId r)) (getRequest s i)"

text \<open>
  The number of redirect-bearing \<open>RequestSent\<close> events of a sequence that carry a given
  request ID, whatever the ingester did with them.
\<close>

definition redirectBearingEvents :: "Event list \<Rightarrow> string \<Rightarrow> nat" where
  "redirectBearingEvents es k =
     length (filter (\<lambda>e. case e of
                            RequestWillBeSent p \<Rightarrow> w_requestId p = k \<and> redirectResponse p \<noteq> None
                          | _ \<Rightarrow> False) es)"

text \<open>
  The IDs of all records the ingester has created so far, in creation order;
  \<open>appliedRedirect\<close> says that an event is a redirect-bearing \<open>RequestSent\<close> that passes
  the exclusion and finds the record at address \<open>a\<close> in flight, and \<open>appliedRedirects\<close>
  counts such events along a run.
\<close>

definition createdIds :: "NetworkCapture \<Rightarrow> string list" where
  "createdIds s = map (\<lambda>e. rid (request e)) (objs s)"

definition appliedRedirect :: "NetworkCaptureOptions \<Rightarrow> NetworkCapture \<Rightarrow> Event \<Rightarrow> nat \<Rightarrow> bool" where
  "appliedRedirect opts s e a =
     (case e of
        RequestWillBeSent p \<Rightarrow>
          redirectResponse p \<noteq> None \<and> \<not> shouldExclude opts (q_url (w_request p)) \<and>
          map_of (pending s) (w_requestId p) = Some a
      | _ \<Rightarrow> False)"

fun appliedRedirects :: "NetworkCaptureOptions \<Rightarrow> NetworkCapture \<Rightarrow> Event list \<Rightarrow> nat \<Rightarrow> nat" where
  "appliedRedirects opts s [] a = 0"
| "appliedRedirects opts s (e # es) a =
     (if appliedRedirect opts s e a then 1 else 0) + appliedRedirects opts (step opts s e) es a"

definition chainLen :: "NetworkCapture \<Rightarrow> nat \<Rightarrow> nat" where
  "chainLen s a = (if a < length (objs s) then length (pe_redirectChain (objs s ! a)) else 0)"

text \<open>
  The request IDs of the terminal events (\<open>loadingFinished\<close>, \<open>loadingFailed\<close>) of a
  sequence, in order.
\<close>

fun terminalId :: "Event \<Rightarrow> string list" where
  "terminalId (LoadingFinished p cb) = [f_requestId p]"
| "terminalId (LoadingFailed p) = [x_requestId p]"
| "terminalId e = []"

definition terminalIds :: "Event list \<Rightarrow> string list" where
  "terminalIds es = concat (map terminalId es)"

text \<open>
  The ID with which the handler of an event calls \<open>finalizeRequest\<close> in state \<open>s\<close>, if
  it does: \<open>handleLoadingFinished\<close> when no body fetch is started, \<open>handleLoadingFailed\<close>,
  and the continuation of a body fetch.
\<close>

definition commits :: "NetworkCapture \<Rightarrow> Event \<Rightarrow> string option" where
  "commits s e =
     (case e of
        LoadingFinished p cb \<Rightarrow>
          (case map_of (pending s) (f_requestId p) of
             None \<Rightarrow> None
           | Some a \<Rightarrow>
               if cb \<and> shouldFetchBody (request (objs s ! a)) then None
               else Some (f_requestId p))
      | LoadingFailed p \<Rightarrow>
          (case map_of (pending s) (x_requestId p) of
             None \<Rightarrow> None
           | Some a \<Rightarrow> Some (x_requestId p))
      | BodyFetchSettled k outcome \<Rightarrow>
          (if k < length (fetches s) then Some (fst (fetches s ! k)) else None)
      | _ \<Rightarrow> None)"

text \<open>
  The IDs of the records created so far that name \<open>target\<close> as the request they are a
  preflight for.
\<close>

definition preflightsOf :: "NetworkCapture \<Rightarrow> string \<Rightarrow> string list" where
  "preflightsOf s target =
     map (\<lambda>e. rid (request e)) (filter (\<lambda>e. preflightFor (request e) = Some target) (objs s))"

text \<open>
  A body fetch settles in flight when the entry its continuation captured is still the
  in-flight record of its request ID; \<open>fetchesSettleInFlight\<close> says so of every fetch that
  settles along a run.
\<close>

definition settlesInFlight :: "NetworkCapture \<Rightarrow> Event \<Rightarrow> bool" where
  "settlesInFlight s e =
     (case e of
        BodyFetchSettled k outcome \<Rightarrow>
          k \<ge> length (fetches s) \<or>
          map_of (pending s) (fst (fetches s ! k)) = Some (snd (fetches s ! k))
      | _ \<Rightarrow> True)"

fun fetchesSettleInFlight :: "NetworkCaptureOptions \<Rightarrow> NetworkCapture \<Rightarrow> Event list \<Rightarrow> bool" where
  "fetchesSettleInFlight opts s [] = True"
| "fetchesSettleInFlight opts s (e # es) =
     (settlesInFlight s e \<and> fetchesSettleInFlight opts (step opts s e) es)"

text \<open>
  Invariants of the ingester: every address held by a map is allocated and the object
  there carries the key as its ID; every \<open>preflightRequestId\<close> names a created record whose
  \<open>preflightFor\<close> points back.
\<close>

definition addrOk :: "PendingEntry list \<Rightarrow> (string \<times> nat) list \<Rightarrow> bool" where
  "addrOk os m = (\<forall>(k, a) \<in> set m. a < length os \<and> rid (request (os ! a)) = k)"

definition wfMaps :: "NetworkCapture \<Rightarrow> bool" where
  "wfMaps s = (addrOk (objs s) (pending s) \<and> addrOk (objs s) (requests s) \<and>
               addrOk (objs s) (fetches s))"

definition linked :: "PendingEntry list \<Rightarrow> bool" where
  "linked os = (\<forall>b<length os. \<forall>p. preflightRequestId (request (os ! b)) = Some p \<longrightarrow>
     (\<exists>a<length os. rid (request (os ! a)) = p \<and>
        preflightFor (request (os ! a)) = Some (rid (request (os ! b)))))"

definition ingesterInv :: "NetworkCapture \<Rightarrow> bool" where
  "ingesterInv s = (wfMaps s \<and> linked (objs s))"

text \<open>Once the chain is aliased the two names agree; stored and fetched records are aliased.\<close>

definition chainsOk :: "PendingEntry list \<Rightarrow> bool" where
  "chainsOk os = (\<forall>a<length os. chainAliased (os ! a) \<longrightarrow>
     redirectChain (request (os ! a)) = pe_redirectChain (os ! a))"

definition aliased :: "PendingEntry list \<Rightarrow> (string \<times> nat) list \<Rightarrow> bool" where
  "aliased os m = (\<forall>(k, a) \<in> set m. a < length os \<and> chainAliased (os ! a))"

definition aliasOk :: "NetworkCapture \<Rightarrow> bool" where
  "aliasOk s = (chainsOk (objs s) \<and> aliased (objs s) (requests s) \<and> aliased (objs s) (fetches s))"

text \<open>
  An event that starts no body fetch and settles none, and the counter invariant of the
  runs made of such events.
\<close>

definition startsNoFetch :: "Event \<Rightarrow> bool" where
  "startsNoFetch e = (case e of LoadingFinished p cb \<Rightarrow> \<not> cb | BodyFetchSettled k outcome \<Rightarrow> False | _ \<Rightarrow> True)"

definition counted :: "NetworkCapture \<Rightarrow> bool" where
  "counted s = (pendingCount s + storeSize s \<le> nextIndex s \<and> fetches s = [])"

text \<open>
  Invariant of the ring buffer: \<open>requestOrder\<close> lists the keys of the store, without
  repetition and without the empty ID, the store is not over its bound, and the IDs of the
  outstanding body fetches and of the terminal events still to come (\<open>ids\<close>) are distinct,
  not empty and not in the store.
\<close>

definition fetchIds :: "NetworkCapture \<Rightarrow> string list" where
  "fetchIds s = map fst (fetches s)"

definition ringInv :: "NetworkCaptureOptions \<Rightarrow> NetworkCapture \<Rightarrow> string list \<Rightarrow> bool" where
  "ringInv opts s ids =
     (map fst (requests s) = requestOrder s \<and> distinct (requestOrder s) \<and>
      length (requestOrder s) \<le> max 1 (maxRequests opts) \<and>
      distinct (fetchIds s @ ids) \<and>
      [] \<notin> set (requestOrder s) \<union> set (fetchIds s) \<union> set ids \<and>
      set (requestOrder s) \<inter> (set (fetchIds s) \<union> set ids) = {})"

text \<open>
  Invariant of the pairing.  A record is visible when the in-flight map or the store
  holds it.  Among visible records, a preflight that names a target which is not itself a
  preflight, and which no other record names, is referenced by that target.
  \<open>links\<close> and \<open>pfs\<close> project the heap on the fields the pairing reads.
\<close>

definition vis :: "NetworkCapture \<Rightarrow> nat \<Rightarrow> bool" where
  "vis s a = (a \<in> snd ` set (pending s) \<or> a \<in> snd ` set (requests s))"

definition paired :: "NetworkCapture \<Rightarrow> bool" where
  "paired s = (\<forall>a b. vis s a \<and> vis s b \<and>
       preflightFor (request (objs s ! a)) = Some (rid (request (objs s ! b))) \<and>
       preflightFor (request (objs s ! b)) = None \<and>
       length (preflightsOf s (rid (request (objs s ! b)))) \<le> 1 \<longrightarrow>
       preflightRequestId (request (objs s ! b)) = Some (rid (request (objs s ! a))))"

definition links :: "NetworkCapture \<Rightarrow> (string \<times> string option \<times> string option) list" where
  "links s = map (\<lambda>e. (rid (request e), preflightFor (request e), preflightRequestId (request e))) (objs s)"


text \<open>
  Invariant of the outstanding body fetches in a run without \<open>clear()\<close>: each captured
  entry is still the in-flight record of its request ID, and the IDs of the fetches and of
  the terminal events still to come (\<open>ids\<close>) are distinct.
\<close>

definition fetchOk :: "NetworkCapture \<Rightarrow> string list \<Rightarrow> bool" where
  "fetchOk s ids =
     ((\<forall>(k, a) \<in> set (fetches s). map_of (pending s) k = Some a) \<and>
      distinct (fetchIds s @ ids))"

section \<open>The correlator: class Correlator\<close>

datatype ActionType = Click | Navigate | TypeText | Submit | Scroll | AgentAction

record TrackedAction =
  aid :: string
  atype :: ActionType
  selector :: string
  targetDescription :: string
  timestamp :: real
  pageUrl :: string
  resultingRequestIds :: "string list"

datatype ChainType = RedirectChain | PreflightChain | AuthFlow | Sequential

text \<open>A detected chain; its human-readable \<open>description\<close> text is not modelled.\<close>

record RequestChain =
  chainType :: ChainType
  requestIds :: "string list"

record CorrelationResult =
  cr_action :: TrackedAction
  cr_requests :: "CapturedRequest list"
  chains :: "RequestChain list"
  cr_confidence :: real

record CorrelationOptions =
  maxCorrelationWindow :: real
  minConfidence :: real
  networkQuietPeriod :: real

definition DEFAULT_CORRELATION_OPTIONS :: CorrelationOptions where
  "DEFAULT_CORRELATION_OPTIONS =
     \<lparr>maxCorrelationWindow = 2000, minConfidence = 2 / 10, networkQuietPeriod = 500\<rparr>"

text \<open>
  The result of \<open>correlateRequest\<close>.  The source returns the action object itself, which
  \<open>correlateAll\<close> later mutates; the model returns its position in \<open>this.actions\<close>.
\<close>

record Match =
  actionRef :: nat
  confidence :: real
  matchMethod :: CorrelationMethod

subsection \<open>Strings and regular expressions\<close>

text \<open>
  \<open>toLowerCase\<close> and the \<open>i\<close> flag are modelled on ASCII letters.  The regular
  expressions of the source are alternations of literals, some with an optional
  arbitrary character (\<open>.?\<close>) between two literals; \<open>.\<close> matches any character but a
  line terminator.
\<close>

definition lowerChar :: "char \<Rightarrow> char" where
  "lowerChar c =
     (if (65::nat) \<le> of_char c \<and> of_char c \<le> (90::nat) then char_of (of_char c + (32::nat)) else c)"

definition toLowerCase :: "string \<Rightarrow> string" where
  "toLowerCase s = map lowerChar s"

definition lineTerminator :: "char \<Rightarrow> bool" where
  "lineTerminator c = (c = CHR 0x0A \<or> c = CHR 0x0D)"

text \<open>\<open>/./.test(s)\<close>\<close>

definition anyChar :: "string \<Rightarrow> bool" where
  "anyChar s = list_ex (\<lambda>c. \<not> lineTerminator c) s"

text \<open>\<open>/pre.?post/\<close> matched at the start of \<open>t\<close>, and anywhere in \<open>s\<close>.\<close>

definition optGapAt :: "string \<Rightarrow> string \<Rightarrow> string \<Rightarrow> bool" where
  "optGapAt t pre post =
     (startsWith t pre \<and>
      (let r = drop (length pre) t in
         startsWith r post \<or>
         (case r of [] \<Rightarrow> False | x # r' \<Rightarrow> \<not> lineTerminator x \<and> startsWith r' post)))"

fun optGap :: "string \<Rightarrow> string \<Rightarrow> string \<Rightarrow> bool" where
  "optGap [] pre post = optGapAt [] pre post"
| "optGap (c # cs) pre post = (optGapAt (c # cs) pre post \<or> optGap cs pre post)"

definition USER_EVENT_TYPES :: "string list" where
  "USER_EVENT_TYPES =
     [''click'', ''dblclick'', ''mousedown'', ''mouseup'', ''submit'', ''input'', ''change'',
      ''keydown'', ''keyup'', ''keypress'', ''touchstart'', ''touchend'', ''pointerdown'',
      ''pointerup'', ''focus'', ''blur'']"

text \<open>\<open>BACKGROUND_PATTERNS.some(pattern => pattern.test(url))\<close>, all patterns with flag \<open>i\<close>.\<close>

definition BACKGROUND_PATTERNS :: "string list" where
  "BACKGROUND_PATTERNS =
     [''analytics'', ''tracking'', ''telemetry'', ''heartbeat'', ''health'', ''ping'', ''beacon'',
      ''google-analytics'', ''gtag'', ''fbevents'', ''segment.io'', ''hotjar'', ''sentry'',
      ''datadog'', ''newrelic'']"

definition isLikelyBackground :: "CapturedRequest \<Rightarrow> bool" where
  "isLikelyBackground r = list_ex (\<lambda>lit. includesStr (toLowerCase (url r)) lit) BACKGROUND_PATTERNS"

subsection \<open>Layer 1: stack traces\<close>

fun walkStack :: "StackTrace \<Rightarrow> nat \<Rightarrow> (string \<times> nat) option" where
  "walkStack (StackTrace d fs p) depth =
     (if depth < 50 then
        (if truthy d \<and> toLowerCase (the d) \<in> set USER_EVENT_TYPES
         then Some (toLowerCase (the d), depth)
         else (case p of None \<Rightarrow> None | Some q \<Rightarrow> walkStack q (Suc depth)))
      else None)"

definition extractEventOrigin :: "StackTrace \<Rightarrow> (string \<times> nat) option" where
  "extractEventOrigin st = walkStack st 0"

definition inWindow :: "CorrelationOptions \<Rightarrow> CapturedRequest \<Rightarrow> TrackedAction \<Rightarrow> bool" where
  "inWindow opts r a =
     (let delta = startTime (timing r) - timestamp a
      in delta \<ge> -10 \<and> delta \<le> maxCorrelationWindow opts)"

definition eventMatchesAction :: "string \<Rightarrow> ActionType \<Rightarrow> bool" where
  "eventMatchesAction eventType t =
     ((eventType = ''click'' \<and> t = Click) \<or>
      (eventType = ''submit'' \<and> t = Submit) \<or>
      (eventType \<in> set [''input'', ''change'', ''keydown''] \<and> t = TypeText) \<or>
      (eventType = ''submit'' \<and> t = Navigate))"

definition matchByStackTrace :: "CorrelationOptions \<Rightarrow> TrackedAction list \<Rightarrow> CapturedRequest \<Rightarrow>
    (nat \<times> real) option" where
  "matchByStackTrace opts actions r =
     (case stack (initiator r) of
        None \<Rightarrow> None
      | Some st \<Rightarrow>
          (case extractEventOrigin st of
             None \<Rightarrow> None
           | Some (eventType, asyncDepth) \<Rightarrow>
               (case filter (\<lambda>i. eventMatchesAction eventType (atype (actions ! i)) \<and>
                                 inWindow opts r (actions ! i)) [0..<length actions] of
                  [] \<Rightarrow> None
                | c # cs \<Rightarrow>
                    Some (foldl (\<lambda>best current.
                                   if \<bar>startTime (timing r) - timestamp (actions ! current)\<bar> <
                                      \<bar>startTime (timing r) - timestamp (actions ! best)\<bar>
                                   then current else best) c cs,
                          max (85 / 100) (95 / 100 - real asyncDepth * (2 / 100))))))"

subsection \<open>Layers 2 and 3: timing and semantics\<close>

text \<open>The rows of the pattern table: text pattern, URL pattern, method, bonus.\<close>

definition patterns :: "((string \<Rightarrow> bool) \<times> (string \<Rightarrow> bool) \<times> string option \<times> real) list" where
  "patterns =
     [(\<lambda>t. includesStr t ''login'' \<or> optGap t ''sign'' ''in'',
       \<lambda>u. includesStr u ''auth'' \<or> includesStr u ''login'' \<or> optGap u ''sign'' ''in'' \<or>
            includesStr u ''session'',
       Some ''POST'', 3 / 10),
      (\<lambda>t. includesStr t ''register'' \<or> optGap t ''sign'' ''up'',
       \<lambda>u. includesStr u ''register'' \<or> optGap u ''sign'' ''up'' \<or> includesStr u ''user'',
       Some ''POST'', 3 / 10),
      (\<lambda>t. includesStr t ''save'' \<or> includesStr t ''update'' \<or> includesStr t ''submit'',
       anyChar, Some ''POST'', 15 / 100),
      (\<lambda>t. includesStr t ''delete'' \<or> includesStr t ''remove'',
       anyChar, Some ''DELETE'', 25 / 100),
      (\<lambda>t. includesStr t ''search'',
       \<lambda>u. includesStr u ''search'' \<or> includesStr u ''query'' \<or> includesStr u ''find'',
       Some ''GET'', 25 / 100),
      (\<lambda>t. optGap t ''load'' ''more'' \<or> includesStr t ''next'',
       \<lambda>u. includesStr u ''page'' \<or> includesStr u ''offset'' \<or> includesStr u ''cursor'' \<or>
            includesStr u ''limit'',
       Some ''GET'', 2 / 10),
      (\<lambda>t. includesStr t ''logout'' \<or> optGap t ''sign'' ''out'',
       \<lambda>u. includesStr u ''logout'' \<or> optGap u ''sign'' ''out'' \<or> includesStr u ''session'',
       None, 3 / 10)]"

definition semanticScore :: "TrackedAction \<Rightarrow> CapturedRequest \<Rightarrow> real" where
  "semanticScore a r =
     (let u = toLowerCase (url r);
          m = httpMethod r;
          d = toLowerCase (targetDescription a);
          s1 = (if atype a = Navigate \<and> resourceType r = Document then 35 / 100 else 0);
          s2 = s1 + (if atype a = Submit \<and> m = ''POST'' then 25 / 100 else 0);
          s3 = s2 + (if atype a = Click \<and> (resourceType r = Xhr \<or> resourceType r = Fetch)
                     then 15 / 100 else 0)
      in case find (\<lambda>(text, urlp, meth, bonus).
                      text d \<and> urlp u \<and> (\<not> truthy meth \<or> meth = Some m)) patterns of
           None \<Rightarrow> s3
         | Some (text, urlp, meth, bonus) \<Rightarrow> s3 + bonus)"

text \<open>The proximity term of \<open>computeScore\<close>.\<close>

definition proximity :: "real \<Rightarrow> real" where
  "proximity deltaMs = 35 / 100 * exp (- deltaMs / 150)"

definition computeScore :: "TrackedAction \<Rightarrow> CapturedRequest \<Rightarrow> real" where
  "computeScore a r =
     (let deltaMs = startTime (timing r) - timestamp a;
          s1 = 0 + proximity deltaMs;
          s2 = s1 + semanticScore a r;
          s3 = (if isLikelyBackground r then s2 - 2 / 10 else s2)
      in max 0 (min 1 s3))"

subsection \<open>Layers 0 and 4: chains\<close>

text \<open>\<open>Array.find\<close> by position.\<close>

definition findIndex :: "('a \<Rightarrow> bool) \<Rightarrow> 'a list \<Rightarrow> nat option" where
  "findIndex P xs = find (\<lambda>i. P (xs ! i)) [0..<length xs]"

text \<open>JavaScript truthiness of an optional number.\<close>

definition truthyNum :: "real option \<Rightarrow> bool" where
  "truthyNum v = (case v of None \<Rightarrow> False | Some x \<Rightarrow> x \<noteq> 0)"

definition matchByChain :: "TrackedAction list \<Rightarrow> CapturedRequest \<Rightarrow> CapturedRequest list \<Rightarrow> Match option" where
  "matchByChain actions r allRequests =
     (let viaPreflight =
            (if itype (initiator r) = ''preflight'' \<and> truthy (irequestId (initiator r)) then
               (case find (\<lambda>q. Some (rid q) = irequestId (initiator r)) allRequests of
                  None \<Rightarrow> None
                | Some par \<Rightarrow>
                    (if truthy (correlatedActionId par) then
                       (case findIndex (\<lambda>a. Some (aid a) = correlatedActionId par) actions of
                          None \<Rightarrow> None
                        | Some i \<Rightarrow>
                            Some \<lparr>actionRef = i, confidence = 85 / 100, matchMethod = Chain\<rparr>)
                     else None))
             else None)
      in case viaPreflight of
           Some m \<Rightarrow> Some m
         | None \<Rightarrow>
             (let recentCorrelated =
                    sort_key (\<lambda>q. - (case endTime (timing q) of None \<Rightarrow> 0 | Some e \<Rightarrow> e))
                      (filter (\<lambda>q. truthy (correlatedActionId q) \<and> truthyNum (endTime (timing q)))
                         allRequests)
              in case find (\<lambda>par.
                              (let gap = startTime (timing r) - the (endTime (timing par))
                               in gap \<ge> 0 \<and> gap \<le> 100) \<and>
                              findIndex (\<lambda>a. Some (aid a) = correlatedActionId par) actions \<noteq> None)
                        recentCorrelated of
                   None \<Rightarrow> None
                 | Some par \<Rightarrow>
                     Some \<lparr>actionRef =
                             the (findIndex (\<lambda>a. Some (aid a) = correlatedActionId par) actions),
                           confidence = 5 / 10, matchMethod = Chain\<rparr>))"

subsection \<open>\<open>correlateRequest\<close>\<close>

definition timingCandidates :: "CorrelationOptions \<Rightarrow> TrackedAction list \<Rightarrow> CapturedRequest \<Rightarrow> nat list" where
  "timingCandidates opts actions r =
     filter (\<lambda>i. inWindow opts r (actions ! i)) [0..<length actions]"

text \<open>Layer 0: a preflight request asks \<open>matchByChain\<close> first.\<close>

definition chainInheritance :: "TrackedAction list \<Rightarrow> CapturedRequest \<Rightarrow> CapturedRequest list \<Rightarrow>
    Match option" where
  "chainInheritance actions r allRequests =
     (if itype (initiator r) = ''preflight'' \<and> truthy (irequestId (initiator r))
      then matchByChain actions r allRequests else None)"

definition correlateRequest :: "CorrelationOptions \<Rightarrow> TrackedAction list \<Rightarrow> CapturedRequest \<Rightarrow>
    CapturedRequest list \<Rightarrow> Match option" where
  "correlateRequest opts actions r allRequests =
     (let chainMatch = chainInheritance actions r allRequests
      in case chainMatch of
           Some m \<Rightarrow> Some m
         | None \<Rightarrow>
             (case matchByStackTrace opts actions r of
                Some (i, c) \<Rightarrow> Some \<lparr>actionRef = i, confidence = c, matchMethod = StackTraceMethod\<rparr>
              | None \<Rightarrow>
                  (let candidates = timingCandidates opts actions r in
                   if candidates = [] then matchByChain actions r allRequests
                   else
                     (let scored =
                            sort_key (\<lambda>(i, c). - c)
                              (filter (\<lambda>(i, c). c \<ge> minConfidence opts)
                                 (map (\<lambda>i. (i, computeScore (actions ! i) r)) candidates))
                      in case scored of
                           [] \<Rightarrow> None
                         | (i, c) # rest \<Rightarrow>
                             Some \<lparr>actionRef = i, confidence = c,
                                   matchMethod = (if c \<ge> 5 / 10 then TimingSemantic else TimingOnly)\<rparr>))))"

subsection \<open>Chain detection within a correlated group\<close>

text \<open>
  A parsed JSON value.  \<open>JSON.parse\<close> is a function of the runtime and is taken as a
  parameter \<open>parse\<close>: \<open>None\<close> when it throws.  A JavaScript value read from the body is a
  \<open>json option\<close>, \<open>None\<close> being \<open>undefined\<close>.
\<close>

datatype json =
  JNull | JBool bool | JNumber real | JString string | JArray "json list"
| JObject "(string \<times> json) list"

definition getProp :: "json option \<Rightarrow> string \<Rightarrow> json option" where
  "getProp v k = (case v of Some (JObject kvs) \<Rightarrow> map_of kvs k | _ \<Rightarrow> None)"

definition jsTruthy :: "json option \<Rightarrow> bool" where
  "jsTruthy v =
     (case v of
        None \<Rightarrow> False
      | Some JNull \<Rightarrow> False
      | Some (JBool b) \<Rightarrow> b
      | Some (JNumber n) \<Rightarrow> n \<noteq> 0
      | Some (JString t) \<Rightarrow> t \<noteq> []
      | Some _ \<Rightarrow> True)"

definition jsOr :: "json option \<Rightarrow> json option \<Rightarrow> json option" where
  "jsOr a b = (if jsTruthy a then a else b)"

text \<open>
  \<open>body.token || body.access_token || body.jwt || body.data?.token || body.data?.access_token\<close>;
  the outer \<open>None\<close> is the \<open>TypeError\<close> of a property read on \<open>null\<close>.
\<close>

definition tokenOf :: "json \<Rightarrow> json option option" where
  "tokenOf body =
     (if body = JNull then None
      else
        let b = Some body;
            d = getProp b ''data'';
            viaData = (\<lambda>k. if d = None \<or> d = Some JNull then None else getProp d k)
        in Some (jsOr (jsOr (jsOr (jsOr (getProp b ''token'') (getProp b ''access_token''))
                   (getProp b ''jwt'')) (viaData ''token'')) (viaData ''access_token'')))"

text \<open>\<open>/auth|login|sign.?in|token|session|oauth/i.test(url)\<close>\<close>

definition authUrl :: "string \<Rightarrow> bool" where
  "authUrl u =
     (let l = toLowerCase u in
      includesStr l ''auth'' \<or> includesStr l ''login'' \<or> optGap l ''sign'' ''in'' \<or>
      includesStr l ''token'' \<or> includesStr l ''session'' \<or> includesStr l ''oauth'')"

text \<open>The token of one candidate auth request; \<open>None\<close> where the loop says \<open>continue\<close>.\<close>

definition tokenValueOf :: "(string \<Rightarrow> json option) \<Rightarrow> CapturedRequest \<Rightarrow> string option" where
  "tokenValueOf parse authReq =
     (if status authReq < 200 \<or> status authReq \<ge> 300 then None
      else if \<not> truthy (responseBody authReq) then None
      else
        (case parse (the (responseBody authReq)) of
           None \<Rightarrow> None
         | Some body \<Rightarrow>
             (case tokenOf body of
                None \<Rightarrow> None
              | Some v \<Rightarrow>
                  (case v of
                     Some (JString t) \<Rightarrow> if t \<noteq> [] then Some t else None
                   | _ \<Rightarrow> None))))"

definition authenticatedBy :: "string \<Rightarrow> CapturedRequest \<Rightarrow> CapturedRequest list \<Rightarrow> CapturedRequest list" where
  "authenticatedBy tokenPrefix authReq reqGroup =
     filter (\<lambda>r.
        \<not> startTime (timing r) \<le> startTime (timing authReq) \<and>
        (let authHeader =
               (if truthy (map_of (requestHeaders r) ''Authorization'')
                then map_of (requestHeaders r) ''Authorization''
                else map_of (requestHeaders r) ''authorization'')
         in truthy authHeader \<and> includesStr (the authHeader) tokenPrefix)) reqGroup"

fun firstAuthChain :: "(string \<Rightarrow> json option) \<Rightarrow> CapturedRequest list \<Rightarrow> CapturedRequest list \<Rightarrow>
    RequestChain option" where
  "firstAuthChain parse reqGroup [] = None"
| "firstAuthChain parse reqGroup (authReq # rest) =
     (case tokenValueOf parse authReq of
        None \<Rightarrow> firstAuthChain parse reqGroup rest
      | Some tokenValue \<Rightarrow>
          (let authenticated = authenticatedBy (take 20 tokenValue) authReq reqGroup in
           if length authenticated > 0
           then Some \<lparr>chainType = AuthFlow, requestIds = rid authReq # map rid authenticated\<rparr>
           else firstAuthChain parse reqGroup rest))"

definition detectAuthFlow :: "(string \<Rightarrow> json option) \<Rightarrow> CapturedRequest list \<Rightarrow> RequestChain option" where
  "detectAuthFlow parse reqGroup =
     firstAuthChain parse reqGroup
       (filter (\<lambda>r. httpMethod r = ''POST'' \<and> authUrl (url r)) reqGroup)"

fun sequentialPairs :: "CapturedRequest list \<Rightarrow> RequestChain list" where
  "sequentialPairs (current # next # rest) =
     (if truthyNum (endTime (timing current)) \<and>
         (let gap = startTime (timing next) - the (endTime (timing current))
          in gap \<ge> 0 \<and> gap \<le> 50)
      then [\<lparr>chainType = Sequential, requestIds = [rid current, rid next]\<rparr>]
      else []) @ sequentialPairs (next # rest)"
| "sequentialPairs rs = []"

definition detectSequentialChains :: "CapturedRequest list \<Rightarrow> RequestChain list" where
  "detectSequentialChains reqGroup =
     sequentialPairs (sort_key (\<lambda>r. startTime (timing r)) reqGroup)"

definition detectChains :: "(string \<Rightarrow> json option) \<Rightarrow> CapturedRequest list \<Rightarrow> RequestChain list" where
  "detectChains parse reqGroup =
     map (\<lambda>req. \<lparr>chainType = RedirectChain, requestIds = [rid req]\<rparr>)
       (filter (\<lambda>req. length (redirectChain req) > 0) reqGroup) @
     concat (map (\<lambda>req.
        if truthy (preflightRequestId req) then
          (case find (\<lambda>q. Some (rid q) = preflightRequestId req) reqGroup of
             None \<Rightarrow> []
           | Some preflight \<Rightarrow> [\<lparr>chainType = PreflightChain, requestIds = [rid preflight, rid req]\<rparr>])
        else []) reqGroup) @
     (case detectAuthFlow parse reqGroup of None \<Rightarrow> [] | Some authChain \<Rightarrow> [authChain]) @
     detectSequentialChains reqGroup"

subsection \<open>\<open>correlateAction\<close> and \<open>correlateAll\<close>\<close>

text \<open>
  Both methods mutate the request objects of the array they are given and one field of
  the matched action objects.  The model passes the array and the action list through and
  returns them updated, next to the method's result.
\<close>

definition recordAction :: "TrackedAction list \<Rightarrow> TrackedAction \<Rightarrow> TrackedAction list" where
  "recordAction actions a = actions @ [a]"

definition getAction :: "TrackedAction list \<Rightarrow> string \<Rightarrow> TrackedAction option" where
  "getAction actions actionId = find (\<lambda>a. aid a = actionId) actions"

definition clearActions :: "TrackedAction list \<Rightarrow> TrackedAction list" where
  "clearActions actions = []"

definition attribute :: "string \<Rightarrow> Match \<Rightarrow> CapturedRequest \<Rightarrow> CapturedRequest" where
  "attribute actionId m r =
     r\<lparr>correlatedActionId := Some actionId,
       correlationConfidence := Some (confidence m),
       correlationMethod := Some (matchMethod m)\<rparr>"

fun correlateActionLoop :: "CorrelationOptions \<Rightarrow> TrackedAction list \<Rightarrow> string \<Rightarrow> nat list \<Rightarrow>
    CapturedRequest list \<times> nat list \<times> real \<Rightarrow> CapturedRequest list \<times> nat list \<times> real" where
  "correlateActionLoop opts actions actionId [] st = st"
| "correlateActionLoop opts actions actionId (i # rest) (reqs, correlated, totalConfidence) =
     (case correlateRequest opts actions (reqs ! i) reqs of
        None \<Rightarrow> correlateActionLoop opts actions actionId rest (reqs, correlated, totalConfidence)
      | Some m \<Rightarrow>
          if aid (actions ! actionRef m) = actionId
          then correlateActionLoop opts actions actionId rest
                 (reqs[i := attribute actionId m (reqs ! i)], correlated @ [i],
                  totalConfidence + confidence m)
          else correlateActionLoop opts actions actionId rest (reqs, correlated, totalConfidence))"

definition correlateAction :: "(string \<Rightarrow> json option) \<Rightarrow> CorrelationOptions \<Rightarrow> TrackedAction list \<Rightarrow>
    string \<Rightarrow> CapturedRequest list \<Rightarrow>
    CorrelationResult option \<times> CapturedRequest list \<times> TrackedAction list" where
  "correlateAction parse opts actions actionId allRequests =
     (case findIndex (\<lambda>a. aid a = actionId) actions of
        None \<Rightarrow> (None, allRequests, actions)
      | Some ai \<Rightarrow>
          (case correlateActionLoop opts actions actionId [0..<length allRequests]
                  (allRequests, [], 0) of
             (reqs, correlated, totalConfidence) \<Rightarrow>
               if length correlated = 0 then (None, reqs, actions)
               else
                 let sortedReqs = sort_key (\<lambda>r. startTime (timing r)) (map (\<lambda>i. reqs ! i) correlated);
                     actions' = actions[ai := (actions ! ai)\<lparr>resultingRequestIds := map rid sortedReqs\<rparr>]
                 in (Some \<lparr>cr_action = actions' ! ai, cr_requests = sortedReqs,
                            chains = detectChains parse sortedReqs,
                            cr_confidence = totalConfidence / real (length correlated)\<rparr>,
                     reqs, actions')))"

text \<open>
  The \<open>results\<close> map of \<open>correlateAll\<close>, keyed by action ID: the position of the action
  object of the first match and the positions of the member requests.
\<close>

fun correlateAllLoop :: "CorrelationOptions \<Rightarrow> TrackedAction list \<Rightarrow> nat list \<Rightarrow>
    CapturedRequest list \<times> (string \<times> nat \<times> nat list) list \<Rightarrow>
    CapturedRequest list \<times> (string \<times> nat \<times> nat list) list" where
  "correlateAllLoop opts actions [] st = st"
| "correlateAllLoop opts actions (i # rest) (reqs, results) =
     (if truthy (correlatedActionId (reqs ! i)) then correlateAllLoop opts actions rest (reqs, results)
      else
        (case correlateRequest opts actions (reqs ! i) reqs of
           None \<Rightarrow> correlateAllLoop opts actions rest (reqs, results)
         | Some m \<Rightarrow>
             (let k = aid (actions ! actionRef m);
                  reqs' = reqs[i := attribute k m (reqs ! i)];
                  results' = (case map_of results k of
                                None \<Rightarrow> results @ [(k, actionRef m, [i])]
                              | Some (ar, members) \<Rightarrow> AList.update k (ar, members @ [i]) results)
              in correlateAllLoop opts actions rest (reqs', results'))))"

definition groupRequests :: "CapturedRequest list \<Rightarrow> nat list \<Rightarrow> CapturedRequest list" where
  "groupRequests reqs members = sort_key (\<lambda>r. startTime (timing r)) (map (\<lambda>i. reqs ! i) members)"

definition correlateAll :: "(string \<Rightarrow> json option) \<Rightarrow> CorrelationOptions \<Rightarrow> TrackedAction list \<Rightarrow>
    CapturedRequest list \<Rightarrow>
    CorrelationResult list \<times> CapturedRequest list \<times> TrackedAction list" where
  "correlateAll parse opts actions reqGroup =
     (case correlateAllLoop opts actions [0..<length reqGroup] (reqGroup, []) of
        (reqs, results) \<Rightarrow>
          let actions' =
                foldl (\<lambda>acts (k, ar, members).
                         acts[ar := (acts ! ar)\<lparr>resultingRequestIds :=
                                                  map rid (groupRequests reqs members)\<rparr>])
                  actions results;
              results' =
                map (\<lambda>(k, ar, members).
                       \<lparr>cr_action = actions' ! ar,
                        cr_requests = groupRequests reqs members,
                        chains = detectChains parse (groupRequests reqs members),
                        cr_confidence =
                          sum_list (map (\<lambda>r. case correlationConfidence r of
                                                 None \<Rightarrow> 0 | Some c \<Rightarrow> c)
                                      (groupRequests reqs members)) /
                          real (length (groupRequests reqs members))\<rparr>) results
          in (sort_key (\<lambda>res. timestamp (cr_action res)) results', reqs, actions'))"

subsection \<open>Test data\<close>

definition mkAction :: "string \<Rightarrow> ActionType \<Rightarrow> string \<Rightarrow> real \<Rightarrow> TrackedAction" where
  "mkAction i t d ts =
     \<lparr>aid = i, atype = t, selector = ''#b'', targetDescription = d, timestamp = ts,
      pageUrl = ''/'', resultingRequestIds = []\<rparr>"

definition mkRequest :: "string \<Rightarrow> string \<Rightarrow> string \<Rightarrow> ResourceType \<Rightarrow> real \<Rightarrow> real option \<Rightarrow>
    CapturedRequest" where
  "mkRequest i u m rt start fin =
     \<lparr>rid = i, index = 0, url = u, httpMethod = m, requestHeaders = [], requestBody = None,
      status = 200, statusText = ''OK'', responseHeaders = [], responseBody = None,
      mimeType = ''application/json'', responseSize = 0, resourceType = rt,
      initiator = scriptInitiator,
      timing = \<lparr>startTime = start, responseTime = None, endTime = fin, duration = None\<rparr>,
      redirectChain = [], preflightFor = None, preflightRequestId = None,
      correlatedActionId = None, correlationConfidence = None, correlationMethod = None\<rparr>"

text \<open>An action 10 ms after the request started: the largest skew the window admits.\<close>

definition lateAction :: TrackedAction where
  "lateAction = mkAction ''A1'' Scroll ''x'' 1010"

definition earlyRequest :: CapturedRequest where
  "earlyRequest = mkRequest ''r'' ''/x'' ''GET'' Other 1000 None"

text \<open>
  An action at time 0; a request attributed to it that ended at 1950; a request that
  starts at 2000, at the far edge of the action's window and 50 ms after the first ended.
\<close>

definition oldAction :: TrackedAction where
  "oldAction = mkAction ''A1'' Scroll ''x'' 0"

definition chainParent :: CapturedRequest where
  "chainParent = (mkRequest ''q'' ''/x'' ''GET'' Other 1000 (Some 1950))
     \<lparr>correlatedActionId := Some ''A1'', correlationConfidence := Some (35 / 100),
      correlationMethod := Some TimingOnly\<rparr>"

definition chainChild :: CapturedRequest where
  "chainChild = mkRequest ''r'' ''/x'' ''GET'' Other 2000 None"

text \<open>The same child with no action in its window: the action is 3 s old.\<close>

definition lateChild :: CapturedRequest where
  "lateChild = mkRequest ''r'' ''/x'' ''GET'' Other 3000 None"

definition lateParent :: CapturedRequest where
  "lateParent = (mkRequest ''q'' ''/x'' ''GET'' Other 1000 (Some 2950))
     \<lparr>correlatedActionId := Some ''A1'', correlationConfidence := Some (35 / 100),
      correlationMethod := Some TimingOnly\<rparr>"



text \<open>An auth request whose body parses to a token, and a later request that sends it.\<close>

definition testToken :: string where
  "testToken = ''abcdefghijklmnopqrstuvwxyz''"

definition testParse :: "string \<Rightarrow> json option" where
  "testParse body =
     (if body = ''{token}'' then Some (JObject [(''token'', JString testToken)]) else None)"

definition authPost :: CapturedRequest where
  "authPost = (mkRequest ''auth'' ''/login'' ''POST'' Fetch 1000 (Some 1050))
     \<lparr>responseBody := Some ''{token}''\<rparr>"

definition dependent :: "string \<Rightarrow> CapturedRequest" where
  "dependent headerName = (mkRequest ''me'' ''/me'' ''GET'' Fetch 1100 (Some 1150))
     \<lparr>requestHeaders := [(headerName, ''Bearer '' @ testToken)]\<rparr>"

text \<open>A click, a preflight that names \<open>x1\<close>, and \<open>x1\<close> itself, all at the same instant.\<close>

definition clickAction :: TrackedAction where
  "clickAction = mkAction ''A1'' Click ''x'' 1000"

definition preflightP :: CapturedRequest where
  "preflightP = (mkRequest ''p'' ''/x'' ''OPTIONS'' Other 1000 None)
     \<lparr>initiator := preflightInitiator ''x1''\<rparr>"

definition actualX :: CapturedRequest where
  "actualX = mkRequest ''x1'' ''/x'' ''POST'' Xhr 1000 None"

definition firstCall :: "CorrelationResult option \<times> CapturedRequest list \<times> TrackedAction list" where
  "firstCall = correlateAction testParse DEFAULT_CORRELATION_OPTIONS [clickAction] ''A1''
     [preflightP, actualX]"

definition secondCall :: "CorrelationResult option \<times> CapturedRequest list \<times> TrackedAction list" where
  "secondCall = correlateAction testParse DEFAULT_CORRELATION_OPTIONS (snd (snd firstCall)) ''A1''
     (fst (snd firstCall))"

text \<open>The three attribution fields of a record.\<close>

definition attribution :: "CapturedRequest \<Rightarrow> string option \<times> real option \<times> CorrelationMethod option" where
  "attribution r = (correlatedActionId r, correlationConfidence r, correlationMethod r)"

text \<open>The three results the calls on the click data produce.\<close>

definition timingOnlyMatch :: Match where
  "timingOnlyMatch = \<lparr>actionRef = 0, confidence = 35 / 100, matchMethod = TimingOnly\<rparr>"

definition timingSemanticMatch :: Match where
  "timingSemanticMatch = \<lparr>actionRef = 0, confidence = 5 / 10, matchMethod = TimingSemantic\<rparr>"

definition chainMatch :: Match where
  "chainMatch = \<lparr>actionRef = 0, confidence = 85 / 100, matchMethod = Chain\<rparr>"


section \<open>Basic facts about the ingester\<close>

lemmas ingester_defs =
  run_def handleRequestWillBeSent_def handleResponseReceived_def
  handleLoadingFinished_def handleLoadingFailed_def bodyFetchSettled_def finalizeRequest_def
  clear_def newCapture_def detectPreflight_def backfill_def findPreflightFor_def modifyAt_def
  modifyRequest_def modify_def newEntry_def stampEnd_def shouldExclude_def shouldFetchBody_def
  toWallTimeMs_def storeSize_def pendingCount_def getRequest_def truthy_def
  recordRedirect_def classifyResourceType_def convertInitiator_def

lemmas fixture_defs =
  getEvent_def okResponse_def finished_def scriptInitiator_def DEFAULT_OPTIONS_def
  lifecycle_def staleFetchTrace_def staleSettle_def smallOptions_def

lemmas fixture2_defs = preflightInitiator_def preflightEvent_def twoPreflightsTrace_def
  reversePreflightTrace_def redirectEvent_def redirectTrace_def orphanRedirectTrace_def
  excludeOldOptions_def excludedHopTrace_def

lemma modify_fields [simp]:
  "objs (modify a f s) = (objs s)[a := f (objs s ! a)]"
  "pending (modify a f s) = pending s"
  "requests (modify a f s) = requests s"
  "fetches (modify a f s) = fetches s"
  "requestOrder (modify a f s) = requestOrder s"
  "nextIndex (modify a f s) = nextIndex s"
  "timestampOffset (modify a f s) = timestampOffset s"
  by (simp_all add: modify_def)

lemma modifyRequest_fields [simp]:
  "objs (modifyRequest a f s) = (objs s)[a := (objs s ! a)\<lparr>request := f (request (objs s ! a))\<rparr>]"
  "pending (modifyRequest a f s) = pending s"
  "requests (modifyRequest a f s) = requests s"
  "fetches (modifyRequest a f s) = fetches s"
  "requestOrder (modifyRequest a f s) = requestOrder s"
  "nextIndex (modifyRequest a f s) = nextIndex s"
  "timestampOffset (modifyRequest a f s) = timestampOffset s"
  by (simp_all add: modifyRequest_def)

lemma modifyAt_fields [simp]:
  "pending (modifyAt m k f s) = pending s"
  "requests (modifyAt m k f s) = requests s"
  "fetches (modifyAt m k f s) = fetches s"
  "requestOrder (modifyAt m k f s) = requestOrder s"
  "nextIndex (modifyAt m k f s) = nextIndex s"
  "timestampOffset (modifyAt m k f s) = timestampOffset s"
  "length (objs (modifyAt m k f s)) = length (objs s)"
  by (simp_all add: modifyAt_def split: option.splits)

lemma finalizeRequest_fields [simp]:
  "objs (finalizeRequest opts k a s) = objs s"
  "pending (finalizeRequest opts k a s) = AList.delete k (pending s)"
  "fetches (finalizeRequest opts k a s) = fetches s"
  "nextIndex (finalizeRequest opts k a s) = nextIndex s"
  "timestampOffset (finalizeRequest opts k a s) = timestampOffset s"
  by (simp_all add: finalizeRequest_def Let_def split: list.splits)

lemma detectPreflight_fields [simp]:
  "pending (detectPreflight p s) = pending s"
  "requests (detectPreflight p s) = requests s"
  "fetches (detectPreflight p s) = fetches s"
  "requestOrder (detectPreflight p s) = requestOrder s"
  "nextIndex (detectPreflight p s) = nextIndex s"
  "timestampOffset (detectPreflight p s) = timestampOffset s"
  "length (objs (detectPreflight p s)) = length (objs s)"
  by (simp_all add: detectPreflight_def backfill_def Let_def split: option.splits)

lemma run_snoc: "run opts s (es @ [e]) = step opts (run opts s es) e"
  by (simp add: run_def)

lemma run_Nil: "run opts s [] = s"
  by (simp add: run_def)

lemma run_Cons: "run opts s (e # es) = run opts (step opts s e) es"
  by (simp add: run_def)

lemma run_append: "run opts s (xs @ ys) = run opts (run opts s xs) ys"
  by (simp add: run_def)

lemma keys_update:
  "map fst (AList.update k v al) = (if k \<in> set (map fst al) then map fst al else map fst al @ [k])"
  by (induction al) auto

lemma keys_delete: "map fst (AList.delete k al) = removeAll k (map fst al)"
  by (induction al) auto

lemma keyset_delete: "fst ` set (AList.delete k al) = fst ` set al - {k}"
  by (induction al) auto

lemma delete_update_fresh:
  "map_of al k = None \<Longrightarrow> AList.delete k (AList.update k v al) = al"
  by (induction al) (auto split: if_splits)

lemma finalizeRequest_keys:
  "storeKeys (finalizeRequest opts i a s) = commitKeys (maxRequests opts) (storeKeys s) i"
  by (auto simp: finalizeRequest_def storeKeys_def commitKeys_def Let_def keys_update
      keys_delete keyset_delete split: list.splits)

text \<open>
  A complete lifecycle without body fetch, for an ID that is not in flight, commits that
  ID and leaves the in-flight map as it was.
\<close>

lemma lifecycle_keys:
  assumes "map_of (pending s) i = None" and "excludePatterns opts = []"
  shows "pending (run opts s (lifecycle i k)) = pending s \<and>
         storeKeys (run opts s (lifecycle i k)) = commitKeys (maxRequests opts) (storeKeys s) i"
  using assms
  apply (simp add: lifecycle_def run_def handleRequestWillBeSent_def shouldExclude_def Let_def
      getEvent_def split: option.splits)
  apply (simp add: handleResponseReceived_def okResponse_def update_conv' split: option.splits)
  apply (simp add: handleLoadingFinished_def finished_def update_conv' Let_def
      finalizeRequest_keys delete_update_fresh)
  apply (simp add: storeKeys_def)
  done

lemma lifecycles_keys:
  assumes "pending s = []" and "excludePatterns opts = []"
  shows "pending (run opts s (lifecycles iks)) = [] \<and>
         storeKeys (run opts s (lifecycles iks)) =
           foldl (commitKeys (maxRequests opts)) (storeKeys s) (map fst iks)"
  using assms
proof (induction iks arbitrary: s)
  case Nil
  then show ?case by (simp add: run_def)
next
  case (Cons ik iks)
  obtain i k where ik: "ik = (i, k)" by (cases ik)
  have "map_of (pending s) i = None" using Cons.prems by simp
  from lifecycle_keys[OF this Cons.prems(2), of k]
  have 1: "pending (run opts s (lifecycle i k)) = []"
    and 2: "storeKeys (run opts s (lifecycle i k)) = commitKeys (maxRequests opts) (storeKeys s) i"
    using Cons.prems by simp_all
  show ?case using Cons.IH[OF 1 Cons.prems(2)] 2 by (simp add: ik run_append)
qed

lemma lifecycles_from_new:
  "storeKeys (run (smallOptions n) newCapture (lifecycles iks)) =
     foldl (commitKeys n) ([], []) (map fst iks)"
proof -
  have "pending newCapture = []" "excludePatterns (smallOptions n) = []"
    by (simp_all add: newCapture_def smallOptions_def DEFAULT_OPTIONS_def)
  from lifecycles_keys[OF this, of iks] show ?thesis
    by (simp add: storeKeys_def newCapture_def smallOptions_def DEFAULT_OPTIONS_def)
qed

lemma storeKeys_sel:
  "map fst (requests s) = fst (storeKeys s)"
  "requestOrder s = snd (storeKeys s)"
  "storeSize s = length (fst (storeKeys s))"
  by (simp_all add: storeKeys_def storeSize_def)

lemma getRequest_None: "k \<notin> set (fst (storeKeys s)) \<Longrightarrow> getRequest s k = None"
  by (simp add: getRequest_def storeKeys_def map_of_eq_None_iff)

lemmas ring_defs = storeKeys_sel lifecycles_from_new commitKeys_def ringBufferTrace_def
  reusedIdPrefix_def reusedIdTrace_def

lemma modifyAt_keeps:
  assumes "\<And>r. g (f r) = g r"
  shows "g (request (objs (modifyAt m k f s) ! a)) = g (request (objs s ! a))"
proof (cases "map_of m k")
  case None
  then show ?thesis by (simp add: modifyAt_def)
next
  case (Some b)
  show ?thesis
  proof (cases "b = a \<and> a < length (objs s)")
    case True
    then show ?thesis using Some assms by (simp add: modifyAt_def)
  next
    case False
    then have "(objs s)[b := (objs s ! b)\<lparr>request := f (request (objs s ! b))\<rparr>] ! a = objs s ! a"
      by (cases "b = a") (auto simp: list_update_beyond)
    then show ?thesis using Some by (simp add: modifyAt_def)
  qed
qed

lemma detectPreflight_keeps:
  assumes "\<And>r v. g (r\<lparr>preflightFor := v\<rparr>) = g r"
    and "\<And>r v. g (r\<lparr>preflightRequestId := v\<rparr>) = g r"
  shows "g (request (objs (detectPreflight p s) ! a)) = g (request (objs s ! a))"
  using assms
  by (simp add: detectPreflight_def backfill_def Let_def modifyAt_keeps split: option.splits)

section \<open>The race between \<open>clear()\<close> and an outstanding body fetch\<close>

text \<open>
  C1.  The repository's test "should discard body fetch results after clear()" feeds a
  request, starts a body fetch at \<open>loadingFinished\<close>, calls \<open>clear()\<close> and lets the fetch
  resolve; it expects the store to stay empty.  \<open>finalizeRequest\<close> has no guard: the
  continuation commits the stale record, so after the fetch resolves the store holds
  \<open>req_1\<close> and its size went from 0 to 1.
\<close>

theorem stale_fetch_commits_after_clear:
  "storeSize (run DEFAULT_OPTIONS newCapture staleFetchTrace) = 0 \<and>
   getRequest (run DEFAULT_OPTIONS newCapture staleFetchTrace) ''req_1'' = None \<and>
   storeSize (run DEFAULT_OPTIONS newCapture (staleFetchTrace @ [staleSettle])) = 1 \<and>
   map_option rid (getRequest (run DEFAULT_OPTIONS newCapture (staleFetchTrace @ [staleSettle]))
      ''req_1'') = Some ''req_1''"
  by (simp add: ingester_defs fixture_defs Let_def)

section \<open>Counters and the bound of the store\<close>

text \<open>
  C2.  The invariant \<open>pendingCount + storeSize \<le> nextIndex\<close> and \<open>storeSize \<le> MaxRequests\<close>
  does not hold after every event sequence.  After the stale commit above the store holds
  one record while \<open>clear()\<close> has reset \<open>nextIndex\<close> to 0.  And when one request ID is
  committed twice, \<open>requestOrder\<close> keeps both entries; the second one later evicts nothing,
  and with \<open>maxRequests = 2\<close> the store grows to 3 records.
\<close>

theorem counters_invariant_broken:
  "pendingCount (run DEFAULT_OPTIONS newCapture (staleFetchTrace @ [staleSettle])) +
     storeSize (run DEFAULT_OPTIONS newCapture (staleFetchTrace @ [staleSettle])) = 1 \<and>
   nextIndex (run DEFAULT_OPTIONS newCapture (staleFetchTrace @ [staleSettle])) = 0 \<and>
   maxRequests (smallOptions 2) = 2 \<and>
   storeSize (run (smallOptions 2) newCapture reusedIdTrace) = 3"
proof -
  have "pendingCount (run DEFAULT_OPTIONS newCapture (staleFetchTrace @ [staleSettle])) +
     storeSize (run DEFAULT_OPTIONS newCapture (staleFetchTrace @ [staleSettle])) = 1"
    by (simp add: ingester_defs fixture_defs Let_def)
  moreover have "nextIndex (run DEFAULT_OPTIONS newCapture (staleFetchTrace @ [staleSettle])) = 0"
    by (simp add: ingester_defs fixture_defs Let_def)
  moreover have "maxRequests (smallOptions 2) = 2"
    by (simp add: smallOptions_def)
  moreover have "storeSize (run (smallOptions 2) newCapture reusedIdTrace) = 3"
    by (simp add: ring_defs del: lifecycles.simps)
  ultimately show ?thesis by simp
qed

text \<open>
  Without body fetches the first inequality does hold: every record is counted by
  \<open>nextIndex\<close> when it is created, and a commit moves it from the in-flight map to the
  store.
\<close>

lemma length_AList_update: "length (AList.update k v al) \<le> Suc (length al)"
  by (induction al) auto

lemma length_AList_delete: "length (AList.delete k al) \<le> length al"
  by (induction al) auto

lemma length_AList_delete_present:
  "map_of al k = Some v \<Longrightarrow> length (AList.delete k al) < length al"
proof (induction al)
  case Nil
  then show ?case by simp
next
  case (Cons p al)
  then show ?case
    using length_AList_delete[of k al] by (cases p) (auto split: if_splits simp: less_Suc_eq_le)
qed

lemma finalizeRequest_store_size:
  "length (requests (finalizeRequest opts k a s)) \<le> Suc (length (requests s))"
proof -
  have "\<And>al. length (AList.update k a al) \<le> Suc (length al)" by (rule length_AList_update)
  moreover have "\<And>o'. length (AList.update k a (AList.delete o' (requests s))) \<le> Suc (length (requests s))"
    using length_AList_update[of k a] length_AList_delete[of _ "requests s"]
    by (meson Suc_le_mono le_trans)
  ultimately show ?thesis
    by (simp add: finalizeRequest_def Let_def split: list.splits)
qed

lemma counted_finalize:
  assumes "counted s" and "map_of (pending s) k = Some a"
    and "pending t = pending s" "requests t = requests s" "nextIndex t = nextIndex s"
    "fetches t = fetches s"
  shows "counted (finalizeRequest opts k a' t)"
proof -
  have "length (AList.delete k (pending s)) < length (pending s)"
    using assms(2) by (rule length_AList_delete_present)
  moreover have "length (requests (finalizeRequest opts k a' t)) \<le> Suc (length (requests s))"
    using finalizeRequest_store_size[of opts k a' t] assms(4) by simp
  ultimately show ?thesis
    using assms(1,3,5,6) by (simp add: counted_def pendingCount_def storeSize_def)
qed

lemma counted_step:
  assumes "counted s" and "startsNoFetch e"
  shows "counted (step opts s e)"
proof (cases e)
  case (RequestWillBeSent p)
  have "length (AList.update (w_requestId p) (length (objs s)) (pending s)) \<le> Suc (length (pending s))"
    by (rule length_AList_update)
  then show ?thesis
    using assms(1) RequestWillBeSent
    by (auto simp: counted_def pendingCount_def storeSize_def handleRequestWillBeSent_def Let_def
        split: option.splits)
next
  case (ResponseReceived p)
  then show ?thesis
    using assms(1)
    by (auto simp: counted_def pendingCount_def storeSize_def handleResponseReceived_def
        split: option.splits)
next
  case (LoadingFinished p cb)
  then have "\<not> cb" using assms(2) by (simp add: startsNoFetch_def)
  then show ?thesis
    using assms(1) LoadingFinished
    by (auto simp: handleLoadingFinished_def Let_def intro!: counted_finalize[OF assms(1)]
        split: option.splits)
next
  case (LoadingFailed p)
  then show ?thesis
    using assms(1)
    by (auto simp: handleLoadingFailed_def Let_def intro!: counted_finalize[OF assms(1)]
        split: option.splits)
next
  case Clear
  then show ?thesis using assms(1) by (simp add: counted_def clear_def pendingCount_def storeSize_def)
next
  case (BodyFetchSettled k outcome)
  then show ?thesis using assms(2) by (simp add: startsNoFetch_def)
qed

lemma counters_without_body_fetch:
  assumes "\<forall>e\<in>set es. startsNoFetch e"
  shows "pendingCount (run opts newCapture es) + storeSize (run opts newCapture es)
           \<le> nextIndex (run opts newCapture es)"
proof -
  have "counted s \<Longrightarrow> \<forall>e\<in>set es. startsNoFetch e \<Longrightarrow> counted (run opts s es)" for s
    unfolding run_def by (induction es arbitrary: s) (simp_all add: counted_step)
  moreover have "counted newCapture"
    by (simp add: counted_def newCapture_def pendingCount_def storeSize_def)
  ultimately show ?thesis using assms by (simp add: counted_def)
qed

section \<open>Ring-buffer eviction\<close>

text \<open>
  The scenario of the ring-buffer test: with \<open>maxRequests = 3\<close>, five complete lifecycles
  leave exactly \<open>R2\<close>, \<open>R3\<close>, \<open>R4\<close> in the store.
\<close>

lemma ring_buffer_scenario:
  "map fst (requests (run (smallOptions 3) newCapture ringBufferTrace)) = [''R2'', ''R3'', ''R4''] \<and>
   storeSize (run (smallOptions 3) newCapture ringBufferTrace) = 3 \<and>
   getRequest (run (smallOptions 3) newCapture ringBufferTrace) ''R0'' = None \<and>
   getRequest (run (smallOptions 3) newCapture ringBufferTrace) ''R1'' = None"
proof -
  have k: "storeKeys (run (smallOptions 3) newCapture ringBufferTrace) =
      ([''R2'', ''R3'', ''R4''], [''R2'', ''R3'', ''R4''])"
    by (simp add: lifecycles_from_new commitKeys_def ringBufferTrace_def del: lifecycles.simps)
  show ?thesis
    by (simp add: storeKeys_sel k getRequest_None)
qed

text \<open>
  As long as \<open>requestOrder\<close> lists the keys of the store, without repetition and without
  the empty ID, a commit of a new ID into a full store evicts the earliest-inserted record
  and keeps the others.
\<close>

lemma eviction_when_in_step:
  assumes "requestOrder s = map fst (requests s)" and "distinct (requestOrder s)"
    and "[] \<notin> set (requestOrder s)" and "length (requests s) = maxRequests opts"
    and "0 < maxRequests opts" and "i \<notin> set (requestOrder s)"
  shows "map fst (requests (finalizeRequest opts i a s)) = tl (requestOrder s) @ [i] \<and>
         requestOrder (finalizeRequest opts i a s) = tl (requestOrder s) @ [i]"
proof -
  obtain oldest rest where o: "requestOrder s = oldest # rest"
    using assms(1,4,5) by (cases "requestOrder s") auto
  have "removeAll oldest (requestOrder s) = rest"
    using assms(2) o by (simp add: distinct_remove1_removeAll[symmetric])
  then have "commitKeys (maxRequests opts) (storeKeys s) i = (rest @ [i], rest @ [i])"
    using assms o by (auto simp: commitKeys_def storeKeys_def)
  then show ?thesis
    using finalizeRequest_keys[of opts i a s] o by (simp add: storeKeys_def)
qed

text \<open>
  A commit of a new, non-empty ID into a store that \<open>requestOrder\<close> lists: the
  earliest-inserted record goes if the store is full, the others stay in order, and the new
  record is appended.
\<close>

lemma delete_absent: "k \<notin> fst ` set al \<Longrightarrow> AList.delete k al = al"
  by (induction al) auto

lemma update_absent: "k \<notin> fst ` set al \<Longrightarrow> AList.update k v al = al @ [(k, v)]"
  by (induction al) auto

lemma finalize_fresh:
  assumes "map fst (requests s) = requestOrder s" and "distinct (requestOrder s)"
    and "[] \<notin> set (requestOrder s)" and "i \<notin> set (requestOrder s)"
  shows "requests (finalizeRequest opts i a s) =
           (if maxRequests opts \<le> length (requests s) then tl (requests s) else requests s) @ [(i, a)]"
    and "requestOrder (finalizeRequest opts i a s) =
           (if maxRequests opts \<le> length (requestOrder s) then tl (requestOrder s) else requestOrder s) @ [i]"
    and "map fst (requests (finalizeRequest opts i a s)) = requestOrder (finalizeRequest opts i a s)"
proof -
  have len: "length (requestOrder s) = length (requests s)"
    using assms(1) by (metis length_map)
  have both: "requests (finalizeRequest opts i a s) =
           (if maxRequests opts \<le> length (requests s) then tl (requests s) else requests s) @ [(i, a)] \<and>
        requestOrder (finalizeRequest opts i a s) =
           (if maxRequests opts \<le> length (requests s) then tl (requestOrder s) else requestOrder s) @ [i]"
  proof (cases "requests s")
    case Nil
    then show ?thesis using assms(1) by (simp add: finalizeRequest_def Let_def)
  next
    case (Cons kv rest)
    obtain k v where kv: "kv = (k, v)" by (cases kv)
    have ro: "requestOrder s = k # map fst rest" using assms(1) Cons kv by simp
    have k: "k \<noteq> []" "k \<notin> fst ` set rest" using assms(2,3) ro by auto
    have i: "i \<noteq> k" "i \<notin> fst ` set rest" using assms(4) ro by auto
    have d: "AList.delete k rest = rest" using k(2) by (rule delete_absent)
    have u1: "AList.update i a rest = rest @ [(i, a)]" using i(2) by (rule update_absent)
    show ?thesis
      using Cons kv ro k i d u1 by (simp add: finalizeRequest_def Let_def)
  qed
  show "requests (finalizeRequest opts i a s) =
           (if maxRequests opts \<le> length (requests s) then tl (requests s) else requests s) @ [(i, a)]"
    using both by simp
  show "requestOrder (finalizeRequest opts i a s) =
           (if maxRequests opts \<le> length (requestOrder s) then tl (requestOrder s) else requestOrder s) @ [i]"
    using both len by simp
  show "map fst (requests (finalizeRequest opts i a s)) = requestOrder (finalizeRequest opts i a s)"
    using both assms(1) by (simp add: map_tl)
qed

lemma finalizeRequest_fetchIds [simp]: "fetchIds (finalizeRequest opts i a s) = fetchIds s"
  by (simp add: fetchIds_def)

lemma ringInv_weaken: "ringInv opts s (i # ids) \<Longrightarrow> ringInv opts s ids"
  by (auto simp: ringInv_def)

lemma set_tl_subset: "set (tl xs) \<subseteq> set xs"
  by (cases xs) auto

lemma ringInv_commit:
  assumes "ringInv opts s ids" and "i \<notin> set (requestOrder s)" and "i \<noteq> []"
    and "i \<notin> set (fetchIds s) \<union> set ids"
    and "requests t = requests s" "requestOrder t = requestOrder s" "fetchIds t = fetchIds s"
  shows "ringInv opts (finalizeRequest opts i a t) ids"
proof -
  have sync: "map fst (requests t) = requestOrder t" "distinct (requestOrder t)"
    "[] \<notin> set (requestOrder t)" "i \<notin> set (requestOrder t)"
    using assms by (auto simp: ringInv_def)
  note f = finalize_fresh[OF sync, of opts a]
  define ro where "ro = requestOrder t"
  define ro' where "ro' = (if maxRequests opts \<le> length ro then tl ro else ro)"
  have r: "requestOrder (finalizeRequest opts i a t) = ro' @ [i]"
    using f(2) by (simp add: ro_def ro'_def)
  have sub: "set ro' \<subseteq> set ro" using set_tl_subset[of ro] by (auto simp: ro'_def)
  have dis: "distinct ro'" using sync(2) by (simp add: ro'_def ro_def distinct_tl)
  have len: "length ro \<le> max 1 (maxRequests opts)" using assms(1,6) by (simp add: ringInv_def ro_def)
  have l2: "length (ro' @ [i]) \<le> max 1 (maxRequests opts)"
    using len by (auto simp: ro'_def)
  have old: "distinct (fetchIds s @ ids)" "[] \<notin> set ro \<union> set (fetchIds s) \<union> set ids"
    "set ro \<inter> (set (fetchIds s) \<union> set ids) = {}" "i \<notin> set ro"
    using assms(1,2,6) by (auto simp: ringInv_def ro_def)
  show ?thesis
    unfolding ringInv_def f(3) r
    using sub dis l2 old assms(3,4,7) by auto
qed

text \<open>The invariant holds along every run whose terminal events carry distinct, non-empty IDs.\<close>

lemma RequestWillBeSent_store:
  "requests (handleRequestWillBeSent opts p s) = requests s"
  "requestOrder (handleRequestWillBeSent opts p s) = requestOrder s"
  "fetches (handleRequestWillBeSent opts p s) = fetches s"
  by (simp_all add: handleRequestWillBeSent_def Let_def split: option.splits)

lemma ResponseReceived_store:
  "requests (handleResponseReceived p s) = requests s"
  "requestOrder (handleResponseReceived p s) = requestOrder s"
  "fetches (handleResponseReceived p s) = fetches s"
  by (simp_all add: handleResponseReceived_def split: option.splits)

lemma ringInv_cong:
  "requests t = requests s \<Longrightarrow> requestOrder t = requestOrder s \<Longrightarrow> fetches t = fetches s \<Longrightarrow>
   ringInv opts t ids = ringInv opts s ids"
  by (simp add: ringInv_def fetchIds_def)

lemma nth_removed:
  assumes "distinct (map fst fs)" and "k < length fs"
  shows "fst (fs ! k) \<notin> set (map fst (take k fs @ drop (Suc k) fs))"
    and "distinct (map fst (take k fs @ drop (Suc k) fs))"
proof -
  have "fs = take k fs @ fs ! k # drop (Suc k) fs" using assms(2) by (rule id_take_nth_drop)
  then have "map fst fs = map fst (take k fs) @ fst (fs ! k) # map fst (drop (Suc k) fs)"
    by (metis list.simps(9) map_append)
  then have "distinct (map fst (take k fs) @ fst (fs ! k) # map fst (drop (Suc k) fs))"
    using assms(1) by simp
  then show "fst (fs ! k) \<notin> set (map fst (take k fs @ drop (Suc k) fs))"
    and "distinct (map fst (take k fs @ drop (Suc k) fs))"
    by auto
qed

lemma ringInv_settle:
  assumes "ringInv opts s ids"
  shows "ringInv opts (bodyFetchSettled opts k outcome s) ids"
proof (cases "k < length (fetches s)")
  case False
  then show ?thesis using assms by (simp add: bodyFetchSettled_def)
next
  case True
  obtain i a where ia: "fetches s ! k = (i, a)" by (cases "fetches s ! k")
  define fs where "fs = take k (fetches s) @ drop (Suc k) (fetches s)"
  define s1 where "s1 = s\<lparr>fetches := fs\<rparr>"
  have mem: "i \<in> set (fetchIds s)"
    using True ia unfolding fetchIds_def by (metis fst_conv nth_map nth_mem length_map)
  have d: "distinct (map fst (fetches s))" using assms by (simp add: ringInv_def fetchIds_def)
  from nth_removed[OF d True] ia
  have n1: "i \<notin> set (fetchIds s1)" and n2: "distinct (fetchIds s1)"
    by (simp_all add: fs_def s1_def fetchIds_def)
  have sub: "set (fetchIds s1) \<subseteq> set (fetchIds s)"
    unfolding fs_def s1_def fetchIds_def by (auto dest: in_set_takeD in_set_dropD)
  have e1: "requestOrder s1 = requestOrder s" "requests s1 = requests s" by (simp_all add: s1_def)
  have i1: "ringInv opts s1 ids"
    using assms sub n2 unfolding ringInv_def e1 by auto
  have fr: "i \<notin> set (requestOrder s1)" "i \<noteq> []" "i \<notin> set (fetchIds s1) \<union> set ids"
    using assms mem n1 unfolding ringInv_def e1 by auto
  have fin: "\<And>t. requests t = requests s1 \<Longrightarrow> requestOrder t = requestOrder s1 \<Longrightarrow>
      fetchIds t = fetchIds s1 \<Longrightarrow> ringInv opts (finalizeRequest opts i a t) ids"
    using ringInv_commit[OF i1 fr] by blast
  show ?thesis
  proof (cases outcome)
    case Rejected
    then show ?thesis using True ia fin[of s1] by (simp add: bodyFetchSettled_def s1_def fs_def)
  next
    case (Fulfilled res)
    show ?thesis
    proof (cases res)
      case None
      then show ?thesis using True ia fin[of s1] Fulfilled by (simp add: bodyFetchSettled_def s1_def fs_def)
    next
      case (Some bb)
      obtain body b64 where bb: "bb = (body, b64)" by (cases bb)
      show ?thesis
        using True ia Fulfilled Some bb
          fin[of "modifyRequest a (\<lambda>r. r\<lparr>responseBody := Some (truncateBody opts body b64)\<rparr>) s1"]
        by (simp add: bodyFetchSettled_def s1_def fs_def fetchIds_def)
    qed
  qed
qed

lemma ringInv_terminal:
  assumes "ringInv opts s (i # ids)"
    and "requests t = requests s" "requestOrder t = requestOrder s" "fetches t = fetches s"
  shows "ringInv opts (finalizeRequest opts i a t) ids"
    and "ringInv opts (t\<lparr>fetches := fetches t @ [(i, a)]\<rparr>) ids"
proof -
  have w: "ringInv opts s ids" using assms(1) by (rule ringInv_weaken)
  have fr: "i \<notin> set (requestOrder s)" "i \<noteq> []" "i \<notin> set (fetchIds s) \<union> set ids"
    using assms(1) unfolding ringInv_def by auto
  have fi: "fetchIds t = fetchIds s" using assms(4) by (simp add: fetchIds_def)
  show "ringInv opts (finalizeRequest opts i a t) ids"
    using ringInv_commit[OF w fr assms(2,3) fi] .
  have f2: "fetchIds (t\<lparr>fetches := fetches t @ [(i, a)]\<rparr>) = fetchIds s @ [i]"
    using assms(4) by (simp add: fetchIds_def)
  show "ringInv opts (t\<lparr>fetches := fetches t @ [(i, a)]\<rparr>) ids"
    using assms(1) unfolding ringInv_def f2 by (auto simp: assms(2,3))
qed

lemma ringInv_step:
  assumes "ringInv opts s (terminalId e @ ids)"
  shows "ringInv opts (step opts s e) ids"
proof (cases e)
  case (RequestWillBeSent p)
  then show ?thesis using assms by (simp add: ringInv_cong[of "handleRequestWillBeSent opts p s" s] RequestWillBeSent_store)
next
  case (ResponseReceived p)
  then show ?thesis using assms by (simp add: ringInv_cong[of "handleResponseReceived p s" s] ResponseReceived_store)
next
  case (LoadingFinished p cb)
  then have a: "ringInv opts s (f_requestId p # ids)" using assms by simp
  show ?thesis
  proof (cases "map_of (pending s) (f_requestId p)")
    case None
    then show ?thesis using LoadingFinished ringInv_weaken[OF a] by (simp add: handleLoadingFinished_def)
  next
    case (Some b)
    define s2 where "s2 = modify b (stampEnd (toWallTimeMs (modifyRequest b (\<lambda>r. r\<lparr>responseSize := encodedDataLength p\<rparr>) s) (f_timestamp p)))
        (modifyRequest b (\<lambda>r. r\<lparr>responseSize := encodedDataLength p\<rparr>) s)"
    have e: "requests s2 = requests s" "requestOrder s2 = requestOrder s" "fetches s2 = fetches s"
      by (simp_all add: s2_def)
    from ringInv_terminal[OF a e, of b]
    show ?thesis using LoadingFinished Some
      by (simp add: handleLoadingFinished_def Let_def s2_def)
  qed
next
  case (LoadingFailed p)
  then have a: "ringInv opts s (x_requestId p # ids)" using assms by simp
  show ?thesis
  proof (cases "map_of (pending s) (x_requestId p)")
    case None
    then show ?thesis using LoadingFailed ringInv_weaken[OF a] by (simp add: handleLoadingFailed_def)
  next
    case (Some b)
    define s1 where "s1 = modifyRequest b
                     (\<lambda>r. if status r = 0 then r\<lparr>status := 0, statusText := errorText p\<rparr>
                          else r) s"
    define s2 where "s2 = modify b (stampEnd (toWallTimeMs s1 (x_timestamp p))) s1"
    have e: "requests s2 = requests s" "requestOrder s2 = requestOrder s" "fetches s2 = fetches s"
      by (simp_all add: s2_def s1_def)
    from ringInv_terminal(1)[OF a e, of b]
    show ?thesis using LoadingFailed Some
      by (simp add: handleLoadingFailed_def Let_def s2_def s1_def)
  qed
next
  case Clear
  then show ?thesis using assms by (simp add: ringInv_def fetchIds_def clear_def)
next
  case (BodyFetchSettled k outcome)
  then show ?thesis using assms by (simp add: ringInv_settle)
qed

lemma terminalIds_simps [simp]:
  "terminalIds [] = []"
  "terminalIds (e # es) = terminalId e @ terminalIds es"
  "terminalIds (es @ es') = terminalIds es @ terminalIds es'"
  by (simp_all add: terminalIds_def)

lemma ringInv_run:
  "ringInv opts s (terminalIds es @ ids) \<Longrightarrow> ringInv opts (run opts s es) ids"
proof (induction es arbitrary: s)
  case Nil
  then show ?case by (simp add: run_def)
next
  case (Cons e es)
  then have "ringInv opts (step opts s e) (terminalIds es @ ids)"
    by (intro ringInv_step) simp
  from Cons.IH[OF this] show ?case by (simp add: run_Cons)
qed

lemma ringInv_newCapture:
  "distinct ids \<Longrightarrow> [] \<notin> set ids \<Longrightarrow> ringInv opts newCapture ids"
  by (simp add: ringInv_def fetchIds_def newCapture_def)

text \<open>An event that commits does so by one call of \<open>finalizeRequest\<close> on the same store.\<close>

lemma shouldFetchBody_stamped:
  "shouldFetchBody (request (objs (modify b (stampEnd t) (modifyRequest b (\<lambda>r. r\<lparr>responseSize := n\<rparr>) s)) ! b)) =
   shouldFetchBody (request (objs s ! b))"
  by (cases "b < length (objs s)") (simp_all add: shouldFetchBody_def stampEnd_def Let_def list_update_beyond)

lemma commits_step:
  assumes "commits s e = Some i"
  shows "(i \<in> set (terminalId e) \<or> i \<in> set (fetchIds s)) \<and>
         (\<exists>a t. requests (step opts s e) = requests (finalizeRequest opts i a t) \<and>
                 requests t = requests s \<and> requestOrder t = requestOrder s)"
proof (cases e)
  case (RequestWillBeSent p)
  then show ?thesis using assms by (simp add: commits_def)
next
  case (ResponseReceived p)
  then show ?thesis using assms by (simp add: commits_def)
next
  case (LoadingFinished p cb)
  from assms LoadingFinished obtain b where b: "map_of (pending s) (f_requestId p) = Some b"
    and nf: "\<not> (cb \<and> shouldFetchBody (request (objs s ! b)))" and i: "i = f_requestId p"
    by (auto simp: commits_def split: option.splits if_splits)
  define s2 where "s2 = modify b (stampEnd (toWallTimeMs (modifyRequest b (\<lambda>r. r\<lparr>responseSize := encodedDataLength p\<rparr>) s) (f_timestamp p)))
        (modifyRequest b (\<lambda>r. r\<lparr>responseSize := encodedDataLength p\<rparr>) s)"
  have e: "requests s2 = requests s" "requestOrder s2 = requestOrder s"
    by (simp_all add: s2_def)
  have sf: "shouldFetchBody (request (objs s2 ! b)) = shouldFetchBody (request (objs s ! b))"
    unfolding s2_def by (rule shouldFetchBody_stamped)
  have "handleLoadingFinished opts p cb s =
      (if cb \<and> shouldFetchBody (request (objs s2 ! b))
       then s2\<lparr>fetches := fetches s2 @ [(f_requestId p, b)]\<rparr>
       else finalizeRequest opts (f_requestId p) b s2)"
    using b by (simp add: handleLoadingFinished_def Let_def s2_def)
  then have "step opts s e = finalizeRequest opts i b s2"
    using LoadingFinished nf i sf by simp
  then show ?thesis using e i LoadingFinished by auto
next
  case (LoadingFailed p)
  from assms LoadingFailed obtain b where b: "map_of (pending s) (x_requestId p) = Some b"
    and i: "i = x_requestId p"
    by (auto simp: commits_def split: option.splits)
  define s1 where "s1 = modifyRequest b
                     (\<lambda>r. if status r = 0 then r\<lparr>status := 0, statusText := errorText p\<rparr>
                          else r) s"
  define s2 where "s2 = modify b (stampEnd (toWallTimeMs s1 (x_timestamp p))) s1"
  have e: "requests s2 = requests s" "requestOrder s2 = requestOrder s"
    by (simp_all add: s2_def s1_def)
  have "step opts s e = finalizeRequest opts i b s2"
    using LoadingFailed b i by (simp add: handleLoadingFailed_def Let_def s2_def s1_def)
  then show ?thesis using e i LoadingFailed by auto
next
  case Clear
  then show ?thesis using assms by (simp add: commits_def)
next
  case (BodyFetchSettled k outcome)
  from assms BodyFetchSettled have k: "k < length (fetches s)" and i: "i = fst (fetches s ! k)"
    by (auto simp: commits_def split: if_splits)
  obtain a where ia: "fetches s ! k = (i, a)" using i by (cases "fetches s ! k") simp
  have mem: "i \<in> set (fetchIds s)"
    using k ia unfolding fetchIds_def by (metis fst_conv nth_map nth_mem length_map)
  have "\<exists>t. step opts s e = finalizeRequest opts i a t \<and> requests t = requests s \<and>
      requestOrder t = requestOrder s"
    using BodyFetchSettled k ia
    by (cases outcome) (auto simp: bodyFetchSettled_def Let_def split: option.splits)
  then obtain t where "step opts s e = finalizeRequest opts i a t" "requests t = requests s"
      "requestOrder t = requestOrder s" by blast
  then have "\<exists>a t. requests (step opts s e) = requests (finalizeRequest opts i a t) \<and>
                 requests t = requests s \<and> requestOrder t = requestOrder s"
    by metis
  then show ?thesis using mem by simp
qed

lemma fill_state:
  "pending (run (smallOptions 2) newCapture (lifecycles [(''A'', 0), (''B'', 1)])) = [] \<and>
   storeKeys (run (smallOptions 2) newCapture (lifecycles [(''A'', 0), (''B'', 1)])) =
     ([''A'', ''B''], [''A'', ''B''])"
proof -
  have "pending newCapture = []" "excludePatterns (smallOptions 2) = []"
    by (simp_all add: newCapture_def smallOptions_def DEFAULT_OPTIONS_def)
  from lifecycles_keys[OF this, of "[(''A'', 0), (''B'', 1)]"] show ?thesis
    by (simp add: storeKeys_def newCapture_def smallOptions_def DEFAULT_OPTIONS_def commitKeys_def
        del: lifecycles.simps)
qed

lemma open_lifecycle:
  assumes "pending s = []" and "excludePatterns opts = []"
  shows "map fst (pending (run opts s (butlast (lifecycle i k)))) = [i] \<and>
         requests (run opts s (butlast (lifecycle i k))) = requests s"
  using assms
  apply (simp add: lifecycle_def run_def handleRequestWillBeSent_def shouldExclude_def Let_def
      getEvent_def split: option.splits)
  apply (simp add: handleResponseReceived_def okResponse_def update_conv' split: option.splits)
  done

text \<open>
  C3.  CDP sends one terminal event (\<open>loadingFinished\<close> or \<open>loadingFailed\<close>) per
  request ID.  For every event sequence whose terminal events carry distinct, non-empty
  request IDs: the store holds at most \<open>maxRequests\<close> records (for \<open>maxRequests > 0\<close>);
  every commit inserts an ID that the store does not hold; and the store after the commit is
  the store before it, without its earliest-inserted record if it held \<open>maxRequests\<close>
  records, followed by the committed record.  In particular, with \<open>maxRequests = 3\<close>, the
  five complete lifecycles \<open>R0\<close> .. \<open>R4\<close> leave exactly \<open>R2\<close>, \<open>R3\<close>, \<open>R4\<close> in the
  store, and \<open>getRequest\<close> finds neither \<open>R0\<close> nor \<open>R1\<close>.
\<close>

theorem full_store_commit_evicts_earliest:
  "(distinct (terminalIds (es @ [e])) \<and> [] \<notin> set (terminalIds (es @ [e])) \<longrightarrow>
      (0 < maxRequests opts \<longrightarrow> storeSize (run opts newCapture es) \<le> maxRequests opts) \<and>
      (commits (run opts newCapture es) e = Some i \<longrightarrow>
         getRequest (run opts newCapture es) i = None \<and>
         (\<exists>a. requests (run opts newCapture (es @ [e])) =
            (if maxRequests opts \<le> storeSize (run opts newCapture es)
             then tl (requests (run opts newCapture es))
             else requests (run opts newCapture es)) @ [(i, a)]))) \<and>
   map fst (requests (run (smallOptions 3) newCapture ringBufferTrace)) = [''R2'', ''R3'', ''R4''] \<and>
   storeSize (run (smallOptions 3) newCapture ringBufferTrace) = 3 \<and>
   getRequest (run (smallOptions 3) newCapture ringBufferTrace) ''R0'' = None \<and>
   getRequest (run (smallOptions 3) newCapture ringBufferTrace) ''R1'' = None"
proof -
  have gen: "(0 < maxRequests opts \<longrightarrow> storeSize (run opts newCapture es) \<le> maxRequests opts) \<and>
      (commits (run opts newCapture es) e = Some i \<longrightarrow>
         getRequest (run opts newCapture es) i = None \<and>
         (\<exists>a. requests (run opts newCapture (es @ [e])) =
            (if maxRequests opts \<le> storeSize (run opts newCapture es)
             then tl (requests (run opts newCapture es))
             else requests (run opts newCapture es)) @ [(i, a)]))"
    if h: "distinct (terminalIds (es @ [e]))" "[] \<notin> set (terminalIds (es @ [e]))"
  proof -
    define s where "s = run opts newCapture es"
    have "ringInv opts newCapture (terminalIds es @ terminalId e)"
      using h by (intro ringInv_newCapture) simp_all
    then have inv: "ringInv opts s (terminalId e)"
      unfolding s_def by (rule ringInv_run)
    have "length (requests s) = length (requestOrder s)"
      using inv unfolding ringInv_def by (metis length_map)
    then have bound: "0 < maxRequests opts \<longrightarrow> storeSize s \<le> maxRequests opts"
      using inv by (auto simp: ringInv_def storeSize_def)
    have com: "getRequest s i = None \<and>
         (\<exists>a. requests (step opts s e) =
            (if maxRequests opts \<le> storeSize s then tl (requests s) else requests s) @ [(i, a)])"
      if c: "commits s e = Some i"
    proof -
      from commits_step[OF c, of opts] obtain a t where
        src: "i \<in> set (terminalId e) \<or> i \<in> set (fetchIds s)"
        and st: "requests (step opts s e) = requests (finalizeRequest opts i a t)"
        and t: "requests t = requests s" "requestOrder t = requestOrder s"
        by blast
      have fr: "i \<notin> set (requestOrder s)" using inv src unfolding ringInv_def by auto
      have sync: "map fst (requests t) = requestOrder t" "distinct (requestOrder t)"
        "[] \<notin> set (requestOrder t)" "i \<notin> set (requestOrder t)"
        using inv fr t by (auto simp: ringInv_def)
      have "map fst (requests s) = requestOrder s" using inv by (simp add: ringInv_def)
      then have "i \<notin> set (map fst (requests s))" using fr by simp
      then have "getRequest s i = None"
        by (simp add: getRequest_def map_of_eq_None_iff)
      moreover have "requests (step opts s e) =
          (if maxRequests opts \<le> storeSize s then tl (requests s) else requests s) @ [(i, a)]"
        using finalize_fresh(1)[OF sync, of opts a] st t by (simp add: storeSize_def)
      ultimately show ?thesis by blast
    qed
    show ?thesis using bound com unfolding s_def run_snoc by blast
  qed
  show ?thesis using gen ring_buffer_scenario by blast
qed

theorem full_store_commit_evicts_earliest_witness:
  "distinct (terminalIds (fillTrace @ [commitC])) \<and>
   [] \<notin> set (terminalIds (fillTrace @ [commitC])) \<and>
   maxRequests (smallOptions 2) = 2 \<and>
   map fst (requests (run (smallOptions 2) newCapture fillTrace)) = [''A'', ''B''] \<and>
   commits (run (smallOptions 2) newCapture fillTrace) commitC = Some ''C'' \<and>
   map fst (requests (run (smallOptions 2) newCapture (fillTrace @ [commitC]))) = [''B'', ''C'']"
proof -
  let ?s = "run (smallOptions 2) newCapture fillTrace"
  let ?m = "run (smallOptions 2) newCapture (lifecycles [(''A'', 0), (''B'', 1)])"
  have h: "distinct (terminalIds (fillTrace @ [commitC]))"
      "[] \<notin> set (terminalIds (fillTrace @ [commitC]))"
    by (simp_all add: fillTrace_def commitC_def lifecycle_def finished_def)
  have m: "maxRequests (smallOptions 2) = 2" "0 < maxRequests (smallOptions 2)"
    by (simp_all add: smallOptions_def)
  have ex: "excludePatterns (smallOptions 2) = []"
    by (simp add: smallOptions_def DEFAULT_OPTIONS_def)
  have mp: "pending ?m = []" and mk: "map fst (requests ?m) = [''A'', ''B'']"
    using fill_state by (simp_all add: storeKeys_def)
  have sp: "?s = run (smallOptions 2) ?m (butlast (lifecycle ''C'' 2))"
    unfolding fillTrace_def by (rule run_append)
  from open_lifecycle[OF mp ex, of "''C''" 2]
  have pk: "map fst (pending ?s) = [''C'']" and rk: "map fst (requests ?s) = [''A'', ''B'']"
    using mk unfolding sp by simp_all
  have sz: "storeSize ?s = 2" using rk unfolding storeSize_def by (metis length_map length_Cons list.size(3) numeral_2_eq_2)
  from pk obtain a where "pending ?s = [(''C'', a)]" by (cases "pending ?s") auto
  then have c: "commits ?s commitC = Some ''C''"
    by (simp add: commits_def commitC_def lifecycle_def finished_def)
  from full_store_commit_evicts_earliest[of fillTrace commitC "smallOptions 2" "''C''"] h c
  obtain b where "requests (run (smallOptions 2) newCapture (fillTrace @ [commitC])) =
      (if maxRequests (smallOptions 2) \<le> storeSize ?s then tl (requests ?s) else requests ?s) @ [(''C'', b)]"
    by blast
  then have "map fst (requests (run (smallOptions 2) newCapture (fillTrace @ [commitC]))) =
      tl (map fst (requests ?s)) @ [''C'']"
    using m sz by (simp add: map_tl)
  then show ?thesis using h m rk c by simp
qed

text \<open>
  Both conditions on the request IDs are needed.  When one ID is committed twice
  (lifecycles \<open>A\<close>, \<open>A\<close>, \<open>B\<close>, \<open>C\<close>, \<open>D\<close> with \<open>maxRequests = 2\<close>),
  \<open>requestOrder\<close> holds \<open>A\<close> twice; once the first entry has evicted \<open>A\<close> the second
  names no record, and the commit of \<open>D\<close> into the full store \<open>B\<close>, \<open>C\<close> evicts
  nothing.  A record with the empty ID is never evicted, because \<open>if (oldest)\<close> takes
  the empty string for an absent entry.
\<close>

lemma reused_id_commit_without_eviction:
  "map fst (requests (run (smallOptions 2) newCapture reusedIdPrefix)) = [''B'', ''C''] \<and>
   requestOrder (run (smallOptions 2) newCapture reusedIdPrefix) = [''A'', ''B'', ''C''] \<and>
   map fst (requests (run (smallOptions 2) newCapture reusedIdTrace)) = [''B'', ''C'', ''D'']"
  by (simp add: ring_defs del: lifecycles.simps)

lemma empty_id_not_evicted:
  "map fst (requests (run (smallOptions 1) newCapture (lifecycles [([], 0), (''B'', 1)]))) = [[], ''B'']"
  by (simp add: storeKeys_sel lifecycles_from_new commitKeys_def del: lifecycles.simps)

section \<open>What \<open>clear()\<close> resets\<close>

lemma cleared_clear: "cleared (clear s)"
  by (simp add: cleared_def clear_def)

lemma cleared_step:
  "cleared s \<Longrightarrow> \<not> isIngestedRequestSent opts e \<Longrightarrow> cleared (step opts s e)"
  by (cases e)
     (auto simp: cleared_def isIngestedRequestSent_def handleRequestWillBeSent_def
        handleResponseReceived_def handleLoadingFinished_def handleLoadingFailed_def
        clear_def bodyFetchSettled_def Let_def
        split: prod.splits FetchOutcome.splits option.splits)

lemma cleared_run:
  "cleared s \<Longrightarrow> \<forall>e\<in>set es. \<not> isIngestedRequestSent opts e \<Longrightarrow> cleared (run opts s es)"
  unfolding run_def by (induction es arbitrary: s) (simp_all add: cleared_step)

text \<open>
  C10.  \<open>clear()\<close> empties the store and the in-flight set and resets the index counter
  and the timestamp offset.  Whatever happens between a \<open>clear()\<close> and the next
  \<open>RequestSent\<close> that passes the URL exclusion (other events, excluded requests, stale
  body fetches settling, further clears), that request gets index 0, the offset is
  recomputed as \<open>wallTime - timestamp\<close> of this very event, and its start time is its own
  wall time in milliseconds.
\<close>

theorem clear_resets_index_and_offset:
  assumes "\<forall>e\<in>set es. \<not> isIngestedRequestSent opts e"
    and "\<not> shouldExclude opts (q_url (w_request p))"
  shows "requests (clear s) = [] \<and> pending (clear s) = [] \<and>
         nextIndex (clear s) = 0 \<and> timestampOffset (clear s) = None \<and>
         timestampOffset (run opts (clear s) (es @ [RequestWillBeSent p])) =
           Some (wallTime p - w_timestamp p) \<and>
         nextIndex (run opts (clear s) (es @ [RequestWillBeSent p])) = 1 \<and>
         map_option index
           (pendingRequest (run opts (clear s) (es @ [RequestWillBeSent p])) (w_requestId p)) = Some 0 \<and>
         map_option (\<lambda>r. startTime (timing r))
           (pendingRequest (run opts (clear s) (es @ [RequestWillBeSent p])) (w_requestId p)) =
           Some (wallTime p * 1000)"
proof -
  define t where "t = run opts (clear s) es"
  have c: "cleared t"
    unfolding t_def using assms(1) by (intro cleared_run cleared_clear)
  have "timestampOffset (step opts t (RequestWillBeSent p)) = Some (wallTime p - w_timestamp p) \<and>
        nextIndex (step opts t (RequestWillBeSent p)) = 1 \<and>
        map_option index (pendingRequest (step opts t (RequestWillBeSent p)) (w_requestId p)) = Some 0 \<and>
        map_option (\<lambda>r. startTime (timing r))
          (pendingRequest (step opts t (RequestWillBeSent p)) (w_requestId p)) =
          Some (wallTime p * 1000)"
    using c assms(2)
    by (simp add: cleared_def handleRequestWillBeSent_def Let_def detectPreflight_keeps
        pendingRequest_def newEntry_def split: option.splits)
  then show ?thesis
    unfolding run_snoc t_def[symmetric] by (simp add: clear_def)
qed

theorem clear_resets_index_and_offset_witness:
  "\<not> isIngestedRequestSent DEFAULT_OPTIONS staleSettle \<and>
   \<not> shouldExclude DEFAULT_OPTIONS ''/next'' \<and>
   timestampOffset (run DEFAULT_OPTIONS newCapture staleFetchTrace) = None \<and>
   timestampOffset (run DEFAULT_OPTIONS newCapture
      (staleFetchTrace @ [staleSettle, RequestWillBeSent (getEvent ''req_2'' ''/next'' 2000 50)])) =
     Some 1950 \<and>
   map_option index (pendingRequest (run DEFAULT_OPTIONS newCapture
      (staleFetchTrace @ [staleSettle, RequestWillBeSent (getEvent ''req_2'' ''/next'' 2000 50)]))
      ''req_2'') = Some 0"
proof -
  have h1: "\<forall>e\<in>set [staleSettle]. \<not> isIngestedRequestSent DEFAULT_OPTIONS e"
    by (simp add: isIngestedRequestSent_def staleSettle_def)
  have h2: "\<not> shouldExclude DEFAULT_OPTIONS (q_url (w_request (getEvent ''req_2'' ''/next'' 2000 50)))"
    by (simp add: shouldExclude_def DEFAULT_OPTIONS_def)
  have pre: "run DEFAULT_OPTIONS newCapture staleFetchTrace =
      clear (run DEFAULT_OPTIONS newCapture (butlast staleFetchTrace))"
    by (simp add: staleFetchTrace_def run_def)
  have split: "run DEFAULT_OPTIONS newCapture
      (staleFetchTrace @ [staleSettle, RequestWillBeSent (getEvent ''req_2'' ''/next'' 2000 50)]) =
     run DEFAULT_OPTIONS (clear (run DEFAULT_OPTIONS newCapture (butlast staleFetchTrace)))
      ([staleSettle] @ [RequestWillBeSent (getEvent ''req_2'' ''/next'' 2000 50)])"
    by (simp add: staleFetchTrace_def run_def)
  show ?thesis
    using clear_resets_index_and_offset[OF h1 h2,
        of "run DEFAULT_OPTIONS newCapture (butlast staleFetchTrace)"] h1 h2
    unfolding split pre
    by (simp add: getEvent_def)
qed

section \<open>Invariants of the ingester\<close>

lemma addrOk_Nil [simp]: "addrOk os []"
  by (simp add: addrOk_def)

lemma addrOk_map_of:
  "addrOk os m \<Longrightarrow> map_of m k = Some a \<Longrightarrow> a < length os \<and> rid (request (os ! a)) = k"
  by (auto simp: addrOk_def dest: map_of_SomeD)

lemma addrOk_subset: "addrOk os m \<Longrightarrow> set m' \<subseteq> set m \<Longrightarrow> addrOk os m'"
  by (auto simp: addrOk_def)

lemma addrOk_obj:
  "addrOk os m \<Longrightarrow> rid (request e) = rid (request (os ! a)) \<Longrightarrow> addrOk (os[a := e]) m"
  unfolding addrOk_def
proof (intro ballI, clarify)
  fix k b
  assume h: "\<forall>(k, a)\<in>set m. a < length os \<and> rid (request (os ! a)) = k"
    and e: "rid (request e) = rid (request (os ! a))" and kb: "(k, b) \<in> set m"
  from h kb have "b < length os" "rid (request (os ! b)) = k" by auto
  then show "b < length (os[a := e]) \<and> rid (request (os[a := e] ! b)) = k"
    using e by (cases "b = a") auto
qed

lemma addrOk_append: "addrOk os m \<Longrightarrow> addrOk (os @ [e]) m"
  by (auto simp: addrOk_def nth_append)

lemma set_AList_update: "set (AList.update k v m) \<subseteq> insert (k, v) (set m)"
  by (induction m) auto

lemma set_AList_delete: "set (AList.delete k m) \<subseteq> set m"
  by (induction m) auto

lemma addrOk_update:
  "addrOk os m \<Longrightarrow> a < length os \<Longrightarrow> rid (request (os ! a)) = k \<Longrightarrow> addrOk os (AList.update k a m)"
  using set_AList_update[of k a m] by (auto simp: addrOk_def)

lemma addrOk_delete: "addrOk os m \<Longrightarrow> addrOk os (AList.delete k m)"
  using set_AList_delete[of k m] by (auto simp: addrOk_def)

lemma addrOk_snoc:
  "addrOk os m \<Longrightarrow> a < length os \<Longrightarrow> rid (request (os ! a)) = k \<Longrightarrow> addrOk os (m @ [(k, a)])"
  by (auto simp: addrOk_def)

lemma linked_keep:
  assumes "linked os"
    and "rid (request e) = rid (request (os ! a))"
    and "preflightRequestId (request e) = preflightRequestId (request (os ! a))"
    and "preflightFor (request (os ! a)) = None \<or>
         preflightFor (request e) = preflightFor (request (os ! a))"
  shows "linked (os[a := e])"
  unfolding linked_def
proof (intro allI impI)
  fix b p
  assume b: "b < length (os[a := e])" and p: "preflightRequestId (request (os[a := e] ! b)) = Some p"
  have "preflightRequestId (request (os ! b)) = Some p"
    using b p assms(3) by (cases "b = a") auto
  then obtain c where c: "c < length os" "rid (request (os ! c)) = p"
      "preflightFor (request (os ! c)) = Some (rid (request (os ! b)))"
    using assms(1) b unfolding linked_def by auto
  have rb: "rid (request (os[a := e] ! b)) = rid (request (os ! b))"
    using b assms(2) by (cases "b = a") auto
  have "rid (request (os[a := e] ! c)) = p \<and>
        preflightFor (request (os[a := e] ! c)) = Some (rid (request (os ! b)))"
    using c assms(2,4) by (cases "c = a") auto
  then show "\<exists>c<length (os[a := e]). rid (request (os[a := e] ! c)) = p \<and>
      preflightFor (request (os[a := e] ! c)) = Some (rid (request (os[a := e] ! b)))"
    using c(1) rb by auto
qed

lemma linked_set:
  assumes "linked os" and "b < length os"
    and "rid (request e) = rid (request (os ! b))"
    and "preflightFor (request e) = preflightFor (request (os ! b))"
    and "preflightRequestId (request e) = Some p"
    and "\<exists>a<length os. rid (request (os ! a)) = p \<and>
           preflightFor (request (os ! a)) = Some (rid (request (os ! b)))"
  shows "linked (os[b := e])"
  unfolding linked_def
proof (intro allI impI)
  fix b' q
  assume b': "b' < length (os[b := e])"
    and q: "preflightRequestId (request (os[b := e] ! b')) = Some q"
  have same: "\<And>c. c < length os \<Longrightarrow> rid (request (os[b := e] ! c)) = rid (request (os ! c)) \<and>
      preflightFor (request (os[b := e] ! c)) = preflightFor (request (os ! c))"
  proof -
    fix c assume "c < length os"
    then show "rid (request (os[b := e] ! c)) = rid (request (os ! c)) \<and>
      preflightFor (request (os[b := e] ! c)) = preflightFor (request (os ! c))"
      using assms(3,4) by (cases "c = b") auto
  qed
  have "\<exists>c<length os. rid (request (os ! c)) = q \<and>
      preflightFor (request (os ! c)) = Some (rid (request (os ! b')))"
  proof (cases "b' = b")
    case True
    then have "q = p" using q assms(2,5) by simp
    then show ?thesis using assms(6) True by simp
  next
    case False
    then have "preflightRequestId (request (os ! b')) = Some q" using q by simp
    then show ?thesis using assms(1) b' unfolding linked_def by auto
  qed
  then obtain c where c: "c < length os" "rid (request (os ! c)) = q"
      "preflightFor (request (os ! c)) = Some (rid (request (os ! b')))" by blast
  show "\<exists>c<length (os[b := e]). rid (request (os[b := e] ! c)) = q \<and>
      preflightFor (request (os[b := e] ! c)) = Some (rid (request (os[b := e] ! b')))"
    using c same[of c] same[of b'] b' by auto
qed

lemma linked_append:
  assumes "linked os" and "preflightRequestId (request e) = None"
  shows "linked (os @ [e])"
  unfolding linked_def
proof (intro allI impI)
  fix b p
  assume b: "b < length (os @ [e])"
    and p: "preflightRequestId (request ((os @ [e]) ! b)) = Some p"
  have bl: "b < length os" using b p assms(2) by (cases "b = length os") auto
  then have "preflightRequestId (request (os ! b)) = Some p" using p by (simp add: nth_append)
  then obtain c where c: "c < length os" "rid (request (os ! c)) = p"
      "preflightFor (request (os ! c)) = Some (rid (request (os ! b)))"
    using assms(1) bl unfolding linked_def by auto
  then show "\<exists>a<length (os @ [e]). rid (request ((os @ [e]) ! a)) = p \<and>
      preflightFor (request ((os @ [e]) ! a)) = Some (rid (request ((os @ [e]) ! b)))"
    using bl by (auto simp: nth_append intro!: exI[of _ c])
qed

lemma ingesterInv_modify_keep:
  assumes "ingesterInv s"
    and "rid (request (f (objs s ! a))) = rid (request (objs s ! a))"
    and "preflightFor (request (f (objs s ! a))) = preflightFor (request (objs s ! a))"
    and "preflightRequestId (request (f (objs s ! a))) = preflightRequestId (request (objs s ! a))"
  shows "ingesterInv (modify a f s)"
  using assms by (simp add: ingesterInv_def wfMaps_def addrOk_obj linked_keep)

lemma ingesterInv_modifyRequest_keep:
  assumes "ingesterInv s"
    and "\<And>r. rid (f r) = rid r"
    and "\<And>r. preflightFor (f r) = preflightFor r"
    and "\<And>r. preflightRequestId (f r) = preflightRequestId r"
  shows "ingesterInv (modifyRequest a f s)"
  unfolding modifyRequest_def using assms by (intro ingesterInv_modify_keep) simp_all

lemma ingesterInv_finalize:
  assumes "ingesterInv s" and "a < length (objs s)" and "rid (request (objs s ! a)) = k"
  shows "ingesterInv (finalizeRequest opts k a s)"
  using assms
  by (auto simp: ingesterInv_def wfMaps_def finalizeRequest_def Let_def addrOk_delete addrOk_update
      split: list.splits)

lemma ingesterInv_fetches:
  "ingesterInv s \<Longrightarrow> set fs \<subseteq> set (fetches s) \<Longrightarrow> ingesterInv (s\<lparr>fetches := fs\<rparr>)"
  by (auto simp: ingesterInv_def wfMaps_def intro: addrOk_subset)

lemma ingesterInv_clear: "ingesterInv s \<Longrightarrow> ingesterInv (clear s)"
  by (simp add: ingesterInv_def wfMaps_def clear_def)

lemma ingesterInv_ResponseReceived: "ingesterInv s \<Longrightarrow> ingesterInv (handleResponseReceived p s)"
  by (auto simp: handleResponseReceived_def intro!: ingesterInv_modifyRequest_keep split: option.splits)

lemma stampEnd_keeps [simp]:
  "rid (request (stampEnd t e)) = rid (request e)"
  "preflightFor (request (stampEnd t e)) = preflightFor (request e)"
  "preflightRequestId (request (stampEnd t e)) = preflightRequestId (request e)"
  by (simp_all add: stampEnd_def Let_def)

lemma ingesterInv_addr:
  "ingesterInv s \<Longrightarrow> map_of (pending s) k = Some a \<Longrightarrow> a < length (objs s) \<and> rid (request (objs s ! a)) = k"
  "ingesterInv s \<Longrightarrow> map_of (requests s) k = Some a \<Longrightarrow> a < length (objs s) \<and> rid (request (objs s ! a)) = k"
  by (auto simp: ingesterInv_def wfMaps_def dest: addrOk_map_of)

lemma ingesterInv_LoadingFinished: 
  assumes "ingesterInv s" shows "ingesterInv (handleLoadingFinished opts p cb s)"
proof (cases "map_of (pending s) (f_requestId p)")
  case None
  then show ?thesis using assms by (simp add: handleLoadingFinished_def)
next
  case (Some a)
  define s1 where "s1 = modifyRequest a (\<lambda>r. r\<lparr>responseSize := encodedDataLength p\<rparr>) s"
  define s2 where "s2 = modify a (stampEnd (toWallTimeMs s1 (f_timestamp p))) s1"
  have a: "a < length (objs s)" "rid (request (objs s ! a)) = f_requestId p"
    using ingesterInv_addr(1)[OF assms Some] by simp_all
  have i1: "ingesterInv s1" unfolding s1_def using assms by (intro ingesterInv_modifyRequest_keep) simp_all
  have i2: "ingesterInv s2" unfolding s2_def using i1 by (intro ingesterInv_modify_keep) simp_all
  have a2: "a < length (objs s2)" "rid (request (objs s2 ! a)) = f_requestId p"
    using a by (simp_all add: s2_def s1_def)
  have "ingesterInv (s2\<lparr>fetches := fetches s2 @ [(f_requestId p, a)]\<rparr>)"
    using i2 a2 by (auto simp: ingesterInv_def wfMaps_def addrOk_snoc)
  moreover have "ingesterInv (finalizeRequest opts (f_requestId p) a s2)"
    using i2 a2 by (rule ingesterInv_finalize)
  ultimately show ?thesis
    using Some by (simp add: handleLoadingFinished_def Let_def s1_def s2_def)
qed

lemma ingesterInv_LoadingFailed: 
  assumes "ingesterInv s" shows "ingesterInv (handleLoadingFailed opts p s)"
proof (cases "map_of (pending s) (x_requestId p)")
  case None
  then show ?thesis using assms by (simp add: handleLoadingFailed_def)
next
  case (Some a)
  define s1 where "s1 = modifyRequest a
                     (\<lambda>r. if status r = 0 then r\<lparr>status := 0, statusText := errorText p\<rparr>
                          else r) s"
  define s2 where "s2 = modify a (stampEnd (toWallTimeMs s1 (x_timestamp p))) s1"
  have a: "a < length (objs s)" "rid (request (objs s ! a)) = x_requestId p"
    using ingesterInv_addr(1)[OF assms Some] by simp_all
  have i1: "ingesterInv s1" unfolding s1_def using assms by (intro ingesterInv_modifyRequest_keep) simp_all
  have i2: "ingesterInv s2" unfolding s2_def using i1 by (intro ingesterInv_modify_keep) simp_all
  have a2: "a < length (objs s2)" "rid (request (objs s2 ! a)) = x_requestId p"
    using a by (simp_all add: s2_def s1_def)
  have "ingesterInv (finalizeRequest opts (x_requestId p) a s2)"
    using i2 a2 by (rule ingesterInv_finalize)
  then show ?thesis
    using Some by (simp add: handleLoadingFailed_def Let_def s1_def s2_def)
qed

lemma ingesterInv_settle:
  assumes "ingesterInv s" shows "ingesterInv (bodyFetchSettled opts k outcome s)"
proof (cases "k < length (fetches s)")
  case False
  then show ?thesis using assms by (simp add: bodyFetchSettled_def)
next
  case True
  obtain i a where ia: "fetches s ! k = (i, a)" by (cases "fetches s ! k")
  have mem: "(i, a) \<in> set (fetches s)" using True ia by (metis nth_mem)
  then have a: "a < length (objs s)" "rid (request (objs s ! a)) = i"
    using assms by (auto simp: ingesterInv_def wfMaps_def addrOk_def)
  define s1 where "s1 = s\<lparr>fetches := take k (fetches s) @ drop (Suc k) (fetches s)\<rparr>"
  have "set (take k (fetches s) @ drop (Suc k) (fetches s)) \<subseteq> set (fetches s)"
    by (auto dest: in_set_takeD in_set_dropD)
  then have i1: "ingesterInv s1" unfolding s1_def using assms by (rule ingesterInv_fetches[rotated])
  have o1: "objs s1 = objs s" by (simp add: s1_def)
  have fin: "\<And>t. ingesterInv t \<Longrightarrow> a < length (objs t) \<Longrightarrow> rid (request (objs t ! a)) = i \<Longrightarrow>
      ingesterInv (finalizeRequest opts i a t)"
    by (rule ingesterInv_finalize)
  have a1: "a < length (objs s1)" "rid (request (objs s1 ! a)) = i"
    using a o1 by simp_all
  show ?thesis
  proof (cases outcome)
    case Rejected
    then show ?thesis using True ia fin[OF i1 a1] by (simp add: bodyFetchSettled_def s1_def)
  next
    case (Fulfilled res)
    show ?thesis
    proof (cases res)
      case None
      then show ?thesis using True ia fin[OF i1 a1] Fulfilled by (simp add: bodyFetchSettled_def s1_def)
    next
      case (Some bb)
      obtain body b64 where bb: "bb = (body, b64)" by (cases bb)
      have "ingesterInv (modifyRequest a (\<lambda>r. r\<lparr>responseBody := Some (truncateBody opts body b64)\<rparr>) s1)"
        using i1 by (intro ingesterInv_modifyRequest_keep) simp_all
      then have "ingesterInv (finalizeRequest opts i a
          (modifyRequest a (\<lambda>r. r\<lparr>responseBody := Some (truncateBody opts body b64)\<rparr>) s1))"
        using a1 by (intro fin) simp_all
      then show ?thesis
        using True ia Fulfilled Some bb by (simp add: bodyFetchSettled_def s1_def)
    qed
  qed
qed

lemma ingesterInv_offset [simp]: "ingesterInv (s\<lparr>timestampOffset := x\<rparr>) = ingesterInv s"
  by (simp add: ingesterInv_def wfMaps_def)

lemma ingesterInv_newCapture: "ingesterInv newCapture"
  by (simp add: ingesterInv_def wfMaps_def linked_def newCapture_def)

lemma ingesterInv_setPre:
  assumes "ingesterInv s"
    and "\<exists>a<length (objs s). rid (request (objs s ! a)) = pid \<and>
           preflightFor (request (objs s ! a)) = Some target"
    and "m = pending s \<or> m = requests s"
  shows "ingesterInv (modifyAt m target (\<lambda>r. r\<lparr>preflightRequestId := Some pid\<rparr>) s)"
proof (cases "map_of m target")
  case None
  then show ?thesis using assms(1) by (simp add: modifyAt_def)
next
  case (Some b)
  have b: "b < length (objs s)" "rid (request (objs s ! b)) = target"
    using assms(1,3) Some ingesterInv_addr[of s target b] by auto
  let ?e = "(objs s ! b)\<lparr>request := request (objs s ! b)\<lparr>preflightRequestId := Some pid\<rparr>\<rparr>"
  have "linked ((objs s)[b := ?e])"
    using assms(1,2) b by (intro linked_set[where p = pid]) (auto simp: ingesterInv_def)
  moreover have "wfMaps (modifyRequest b (\<lambda>r. r\<lparr>preflightRequestId := Some pid\<rparr>) s)"
    using assms(1) by (simp add: ingesterInv_def wfMaps_def addrOk_obj)
  ultimately show ?thesis using Some by (simp add: modifyAt_def ingesterInv_def)
qed

lemma find_SomeD: "find P xs = Some x \<Longrightarrow> x \<in> set xs \<and> P x"
  by (induction xs) (auto split: if_splits)

lemma findPreflightFor_Some:
  assumes "ingesterInv s" and "m = pending s \<or> m = requests s"
    and "findPreflightFor s m i = Some k"
  shows "\<exists>a<length (objs s). rid (request (objs s ! a)) = k \<and>
           preflightFor (request (objs s ! a)) = Some i"
proof -
  from assms(3) obtain a where f: "find (\<lambda>(k, a). preflightFor (request (objs s ! a)) = Some i) m = Some (k, a)"
    by (auto simp: findPreflightFor_def)
  then have mem: "(k, a) \<in> set m" and pf: "preflightFor (request (objs s ! a)) = Some i"
    by (auto dest: find_SomeD)
  have "a < length (objs s) \<and> rid (request (objs s ! a)) = k"
    using assms(1,2) mem by (auto simp: ingesterInv_def wfMaps_def addrOk_def)
  then show ?thesis using pf by auto
qed

lemma ingesterInv_backfill:
  assumes "ingesterInv s" and "m = pending s \<or> m = requests s"
  shows "ingesterInv (backfill m i s)"
proof (cases "findPreflightFor s m i")
  case None
  then show ?thesis using assms(1) by (simp add: backfill_def)
next
  case (Some k)
  from findPreflightFor_Some[OF assms Some]
  have "ingesterInv (modifyAt (pending s) i (\<lambda>r. r\<lparr>preflightRequestId := Some k\<rparr>) s)"
    using assms(1) by (intro ingesterInv_setPre) auto
  then show ?thesis using Some by (simp add: backfill_def)
qed

lemma backfill_fields [simp]:
  "pending (backfill m i s) = pending s"
  "requests (backfill m i s) = requests s"
  by (simp_all add: backfill_def split: option.splits)

lemma ingesterInv_detectPreflight:
  assumes "ingesterInv s" and "map_of (pending s) (w_requestId p) = Some a"
    and "preflightFor (request (objs s ! a)) = None"
  shows "ingesterInv (detectPreflight p s)"
proof (cases "itype (w_initiator p) = ''preflight'' \<and> truthy (irequestId (w_initiator p))")
  case False
  have "ingesterInv (backfill (pending s) (w_requestId p) s)"
    using assms(1) by (intro ingesterInv_backfill) simp_all
  from ingesterInv_backfill[OF this, of "requests s" "w_requestId p"]
  have "ingesterInv (backfill (requests s) (w_requestId p) (backfill (pending s) (w_requestId p) s))"
    by simp
  moreover have "detectPreflight p s =
      backfill (requests s) (w_requestId p) (backfill (pending s) (w_requestId p) s)"
    unfolding detectPreflight_def using False by (rule if_not_P)
  ultimately show ?thesis by simp
next
  case True
  define target where "target = the (irequestId (w_initiator p))"
  define s1 where "s1 = modifyAt (pending s) (w_requestId p) (\<lambda>r. r\<lparr>preflightFor := Some target\<rparr>) s"
  define s2 where "s2 = modifyAt (pending s1) target
                   (\<lambda>r. r\<lparr>preflightRequestId := Some (w_requestId p)\<rparr>) s1"
  have a: "a < length (objs s)" "rid (request (objs s ! a)) = w_requestId p"
    using ingesterInv_addr(1)[OF assms(1,2)] by simp_all
  have s1: "s1 = modifyRequest a (\<lambda>r. r\<lparr>preflightFor := Some target\<rparr>) s"
    using assms(2) by (simp add: s1_def modifyAt_def)
  have i1: "ingesterInv s1"
    unfolding s1 using assms(1,3) a
    by (simp add: ingesterInv_def wfMaps_def addrOk_obj linked_keep)
  have w1: "\<exists>c<length (objs s1). rid (request (objs s1 ! c)) = w_requestId p \<and>
           preflightFor (request (objs s1 ! c)) = Some target"
    using a by (auto simp: s1 intro!: exI[of _ a])
  have i2: "ingesterInv s2"
    unfolding s2_def using i1 w1 by (intro ingesterInv_setPre) simp_all
  have w2: "\<exists>c<length (objs s2). rid (request (objs s2 ! c)) = w_requestId p \<and>
           preflightFor (request (objs s2 ! c)) = Some target"
    using w1 unfolding s2_def by (simp add: modifyAt_keeps)
  have "ingesterInv (modifyAt (requests s2) target
             (\<lambda>r. r\<lparr>preflightRequestId := Some (w_requestId p)\<rparr>) s2)"
    using i2 w2 by (intro ingesterInv_setPre) simp_all
  then show ?thesis
    using True by (simp add: detectPreflight_def Let_def s1_def s2_def target_def)
qed

lemma recordRedirect_keeps [simp]:
  "rid (request (recordRedirect p rr e)) = rid (request e)"
  "preflightFor (request (recordRedirect p rr e)) = preflightFor (request e)"
  "preflightRequestId (request (recordRedirect p rr e)) = preflightRequestId (request e)"
  by (simp_all add: recordRedirect_def Let_def)

lemma ingesterInv_newRequest:
  assumes "ingesterInv s"
  shows "ingesterInv (detectPreflight p
               (s\<lparr>objs := objs s @ [newEntry (nextIndex s) p],
                  pending := AList.update (w_requestId p) (length (objs s)) (pending s),
                  nextIndex := Suc (nextIndex s)\<rparr>))"
proof (rule ingesterInv_detectPreflight)
  let ?t = "s\<lparr>objs := objs s @ [newEntry (nextIndex s) p],
                  pending := AList.update (w_requestId p) (length (objs s)) (pending s),
                  nextIndex := Suc (nextIndex s)\<rparr>"
  have "addrOk (objs s @ [newEntry (nextIndex s) p])
          (AList.update (w_requestId p) (length (objs s)) (pending s))"
    using assms by (intro addrOk_update addrOk_append) (simp_all add: ingesterInv_def wfMaps_def newEntry_def)
  then show "ingesterInv ?t"
    using assms by (simp add: ingesterInv_def wfMaps_def addrOk_append linked_append newEntry_def)
  show "map_of (pending ?t) (w_requestId p) = Some (length (objs s))"
    by (simp add: update_conv')
  show "preflightFor (request (objs ?t ! length (objs s))) = None"
    by (simp add: newEntry_def)
qed

lemma ingesterInv_RequestWillBeSent:
  assumes "ingesterInv s" shows "ingesterInv (handleRequestWillBeSent opts p s)"
proof (cases "shouldExclude opts (q_url (w_request p))")
  case True
  then show ?thesis using assms by (simp add: handleRequestWillBeSent_def)
next
  case False
  define t where "t = (if timestampOffset s = None
                 then s\<lparr>timestampOffset := Some (wallTime p - w_timestamp p)\<rparr>
                 else s)"
  have it: "ingesterInv t" using assms by (simp add: t_def)
  have r: "\<And>a rr. ingesterInv (modify a (recordRedirect p rr) t)"
    using it by (intro ingesterInv_modify_keep) simp_all
  have "handleRequestWillBeSent opts p s =
     (case (redirectResponse p, map_of (pending t) (w_requestId p)) of
             (Some rr, Some a) \<Rightarrow> modify a (recordRedirect p rr) t
           | _ \<Rightarrow>
             detectPreflight p
               (t\<lparr>objs := objs t @ [newEntry (nextIndex t) p],
                  pending := AList.update (w_requestId p) (length (objs t)) (pending t),
                  nextIndex := Suc (nextIndex t)\<rparr>))"
    unfolding handleRequestWillBeSent_def t_def using False by (simp only: Let_def if_False)
  then show ?thesis
    using r ingesterInv_newRequest[OF it, of p] by (simp split: option.splits)
qed

lemma ingesterInv_step: "ingesterInv s \<Longrightarrow> ingesterInv (step opts s e)"
  by (cases e)
     (simp_all add: ingesterInv_RequestWillBeSent ingesterInv_ResponseReceived ingesterInv_LoadingFinished
        ingesterInv_LoadingFailed ingesterInv_clear ingesterInv_settle)


section \<open>Redirect chains\<close>

lemma nth_update_cases:
  "g (os[b := e] ! a) = (if a = b \<and> b < length os then g e else g (os ! a))"
  by (cases "b < length os") (auto simp: list_update_beyond)

lemma chainLen_modifyRequest [simp]: "chainLen (modifyRequest b f s) a = chainLen s a"
  by (simp add: chainLen_def nth_update_cases)

lemma chainLen_modifyAt [simp]: "chainLen (modifyAt m k f s) a = chainLen s a"
  by (simp add: modifyAt_def split: option.splits)

lemma chainLen_detectPreflight [simp]: "chainLen (detectPreflight p s) a = chainLen s a"
  by (simp add: detectPreflight_def backfill_def Let_def split: option.splits)

lemma chainLen_finalize [simp]: "chainLen (finalizeRequest opts k b s) a = chainLen s a"
  by (simp add: chainLen_def)

lemma chainLen_stampEnd [simp]: "chainLen (modify b (stampEnd t) s) a = chainLen s a"
  by (simp add: chainLen_def nth_update_cases stampEnd_def Let_def)

lemma chainLen_fetches [simp]: "chainLen (s\<lparr>fetches := x\<rparr>) a = chainLen s a"
  by (simp add: chainLen_def)

lemma chainLen_offset [simp]: "chainLen (s\<lparr>timestampOffset := x\<rparr>) a = chainLen s a"
  by (simp add: chainLen_def)

lemma chainLen_clear [simp]: "chainLen (clear s) a = chainLen s a"
  by (simp add: chainLen_def clear_def)

lemma chainLen_redirect:
  "b < length (objs s) \<Longrightarrow>
   chainLen (modify b (recordRedirect p rr) s) a = chainLen s a + (if a = b then 1 else 0)"
  by (simp add: chainLen_def nth_update_cases recordRedirect_def Let_def)

lemma chainLen_new:
  "chainLen (s\<lparr>objs := objs s @ [newEntry n p], pending := x, nextIndex := y\<rparr>) a = chainLen s a"
  "chainLen (s\<lparr>timestampOffset := z, objs := objs s @ [newEntry n p], pending := x,
      nextIndex := y\<rparr>) a = chainLen s a"
  by (auto simp: chainLen_def nth_append newEntry_def)

lemma chainLen_step:
  assumes "wfMaps s"
  shows "chainLen (step opts s e) a = chainLen s a + (if appliedRedirect opts s e a then 1 else 0)"
proof (cases e)
  case (RequestWillBeSent p)
  show ?thesis
  proof (cases "shouldExclude opts (q_url (w_request p))")
    case True
    then show ?thesis using RequestWillBeSent
      by (simp add: handleRequestWillBeSent_def appliedRedirect_def)
  next
    case False
    have "\<And>b. map_of (pending s) (w_requestId p) = Some b \<Longrightarrow> b < length (objs s)"
      using assms by (auto simp: wfMaps_def dest: addrOk_map_of)
    then show ?thesis using RequestWillBeSent False
      by (auto simp: handleRequestWillBeSent_def appliedRedirect_def Let_def chainLen_redirect
          chainLen_new split: option.splits)
  qed
next
  case (ResponseReceived p)
  then show ?thesis
    by (simp add: handleResponseReceived_def appliedRedirect_def split: option.splits)
next
  case (LoadingFinished p cb)
  then show ?thesis
    by (simp add: handleLoadingFinished_def appliedRedirect_def Let_def split: option.splits)
next
  case (LoadingFailed p)
  then show ?thesis
    by (simp add: handleLoadingFailed_def appliedRedirect_def Let_def split: option.splits)
next
  case Clear
  then show ?thesis by (simp add: appliedRedirect_def)
next
  case (BodyFetchSettled k outcome)
  then show ?thesis
    by (simp add: bodyFetchSettled_def appliedRedirect_def Let_def
        split: option.splits prod.splits FetchOutcome.splits)
qed

lemma chainLen_run:
  "ingesterInv s \<Longrightarrow> chainLen (run opts s es) a = chainLen s a + appliedRedirects opts s es a"
proof (induction es arbitrary: s)
  case Nil
  then show ?case by (simp add: run_def)
next
  case (Cons e es)
  have "ingesterInv (step opts s e)" using Cons.prems by (rule ingesterInv_step)
  from Cons.IH[OF this] show ?case
    using Cons.prems chainLen_step[of s opts e a] by (simp add: run_Cons ingesterInv_def)
qed

lemma chainsOk_update:
  assumes "chainsOk os"
    and "b < length os \<Longrightarrow> chainAliased e \<Longrightarrow> redirectChain (request e) = pe_redirectChain e"
  shows "chainsOk (os[b := e])"
  unfolding chainsOk_def
proof (intro allI impI)
  fix a assume a: "a < length (os[b := e])" and al: "chainAliased (os[b := e] ! a)"
  show "redirectChain (request (os[b := e] ! a)) = pe_redirectChain (os[b := e] ! a)"
  proof (cases "a = b")
    case True
    then show ?thesis using a al assms(2) by simp
  next
    case False
    then show ?thesis using a al assms(1) by (simp add: chainsOk_def)
  qed
qed

lemma aliased_update:
  assumes "aliased os m"
    and "b < length os \<Longrightarrow> chainAliased (os ! b) \<Longrightarrow> chainAliased e"
  shows "aliased (os[b := e]) m"
  unfolding aliased_def
proof (intro ballI, clarify)
  fix k a assume "(k, a) \<in> set m"
  then have a: "a < length os" "chainAliased (os ! a)" using assms(1) by (auto simp: aliased_def)
  then show "a < length (os[b := e]) \<and> chainAliased (os[b := e] ! a)"
    using assms(2) by (cases "a = b") auto
qed

lemma chainsOk_append:
  "chainsOk os \<Longrightarrow> \<not> chainAliased e \<Longrightarrow> chainsOk (os @ [e])"
  by (auto simp: chainsOk_def nth_append less_Suc_eq)

lemma aliased_append: "aliased os m \<Longrightarrow> aliased (os @ [e]) m"
  by (auto simp: aliased_def nth_append)

lemma aliased_subset: "aliased os m \<Longrightarrow> set m' \<subseteq> set m \<Longrightarrow> aliased os m'"
  by (auto simp: aliased_def)

lemma aliased_Nil [simp]: "aliased os []"
  by (simp add: aliased_def)

lemma aliased_AList_update:
  "aliased os m \<Longrightarrow> a < length os \<Longrightarrow> chainAliased (os ! a) \<Longrightarrow> aliased os (AList.update k a m)"
  using set_AList_update[of k a m] by (auto simp: aliased_def)

lemma aliased_AList_delete: "aliased os m \<Longrightarrow> aliased os (AList.delete k m)"
  using set_AList_delete[of k m] by (auto simp: aliased_def)

lemma aliased_snoc:
  "aliased os m \<Longrightarrow> a < length os \<Longrightarrow> chainAliased (os ! a) \<Longrightarrow> aliased os (m @ [(k, a)])"
  by (auto simp: aliased_def)

lemma aliasOk_modifyRequest:
  assumes "aliasOk s" and "\<And>r. redirectChain (f r) = redirectChain r"
  shows "aliasOk (modifyRequest b f s)"
proof -
  let ?e = "(objs s ! b)\<lparr>request := f (request (objs s ! b))\<rparr>"
  have "b < length (objs s) \<Longrightarrow> chainAliased ?e \<Longrightarrow>
      redirectChain (request ?e) = pe_redirectChain ?e"
    using assms by (simp add: aliasOk_def chainsOk_def)
  then have "chainsOk ((objs s)[b := ?e])"
    using assms(1) by (intro chainsOk_update) (simp_all add: aliasOk_def)
  moreover have "aliased ((objs s)[b := ?e]) (requests s)" "aliased ((objs s)[b := ?e]) (fetches s)"
    using assms(1) by (auto simp: aliasOk_def intro!: aliased_update)
  ultimately show ?thesis by (simp add: aliasOk_def)
qed

lemma aliasOk_modifyAt:
  assumes "aliasOk s" and "\<And>r. redirectChain (f r) = redirectChain r"
  shows "aliasOk (modifyAt m k f s)"
  using assms by (simp add: modifyAt_def aliasOk_modifyRequest split: option.splits)

lemma aliasOk_detectPreflight: "aliasOk s \<Longrightarrow> aliasOk (detectPreflight p s)"
  by (simp add: detectPreflight_def backfill_def Let_def aliasOk_modifyAt split: option.splits)

lemma aliasOk_stampEnd: "aliasOk s \<Longrightarrow> aliasOk (modify b (stampEnd t) s)"
  by (auto simp: aliasOk_def stampEnd_def Let_def intro!: chainsOk_update aliased_update)

lemma aliasOk_redirect:
  assumes "aliasOk s"
  shows "aliasOk (modify b (recordRedirect p rr) s)"
proof -
  let ?e = "recordRedirect p rr (objs s ! b)"
  have "b < length (objs s) \<Longrightarrow> chainAliased ?e \<Longrightarrow>
      redirectChain (request ?e) = pe_redirectChain ?e"
    using assms by (simp add: aliasOk_def chainsOk_def recordRedirect_def Let_def)
  then have "chainsOk ((objs s)[b := ?e])"
    using assms by (intro chainsOk_update) (simp_all add: aliasOk_def)
  moreover have "aliased ((objs s)[b := ?e]) (requests s)" "aliased ((objs s)[b := ?e]) (fetches s)"
    using assms by (auto simp: aliasOk_def recordRedirect_def Let_def intro!: aliased_update)
  ultimately show ?thesis by (simp add: aliasOk_def)
qed

lemma aliasOk_finalize:
  "aliasOk s \<Longrightarrow> b < length (objs s) \<Longrightarrow> chainAliased (objs s ! b) \<Longrightarrow>
   aliasOk (finalizeRequest opts k b s)"
  by (auto simp: aliasOk_def finalizeRequest_def Let_def aliased_AList_update aliased_AList_delete
      split: list.splits)

lemma aliasOk_newCapture: "aliasOk newCapture"
  by (simp add: aliasOk_def chainsOk_def newCapture_def)

lemma aliasOk_RequestWillBeSent:
  assumes "aliasOk s"
  shows "aliasOk (handleRequestWillBeSent opts p s)"
proof (cases "shouldExclude opts (q_url (w_request p))")
  case True
  then show ?thesis using assms by (simp add: handleRequestWillBeSent_def)
next
  case False
  define t where "t = (if timestampOffset s = None
                 then s\<lparr>timestampOffset := Some (wallTime p - w_timestamp p)\<rparr>
                 else s)"
  have it: "aliasOk t" using assms by (simp add: t_def aliasOk_def)
  have n: "aliasOk (detectPreflight p (t\<lparr>objs := objs t @ [newEntry (nextIndex t) p],
                  pending := AList.update (w_requestId p) (length (objs t)) (pending t),
                  nextIndex := Suc (nextIndex t)\<rparr>))"
    using it
    by (intro aliasOk_detectPreflight)
       (simp add: aliasOk_def chainsOk_append aliased_append newEntry_def)
  have "handleRequestWillBeSent opts p s =
     (case (redirectResponse p, map_of (pending t) (w_requestId p)) of
             (Some rr, Some a) \<Rightarrow> modify a (recordRedirect p rr) t
           | _ \<Rightarrow>
             detectPreflight p
               (t\<lparr>objs := objs t @ [newEntry (nextIndex t) p],
                  pending := AList.update (w_requestId p) (length (objs t)) (pending t),
                  nextIndex := Suc (nextIndex t)\<rparr>))"
    unfolding handleRequestWillBeSent_def t_def using False by (simp only: Let_def if_False)
  then show ?thesis
    using n aliasOk_redirect[OF it] by (simp split: option.splits)
qed

lemma aliasOk_ResponseReceived: "aliasOk s \<Longrightarrow> aliasOk (handleResponseReceived p s)"
  by (auto simp: handleResponseReceived_def intro!: aliasOk_modifyRequest split: option.splits)

lemma stamped_aliased:
  "b < length (objs s) \<Longrightarrow> chainAliased (objs (modify b (stampEnd t) s) ! b)"
  by (simp add: stampEnd_def Let_def)

lemma aliasOk_LoadingFinished:
  assumes "aliasOk s" and "wfMaps s"
  shows "aliasOk (handleLoadingFinished opts p cb s)"
proof (cases "map_of (pending s) (f_requestId p)")
  case None
  then show ?thesis using assms by (simp add: handleLoadingFinished_def)
next
  case (Some a)
  define s1 where "s1 = modifyRequest a (\<lambda>r. r\<lparr>responseSize := encodedDataLength p\<rparr>) s"
  define s2 where "s2 = modify a (stampEnd (toWallTimeMs s1 (f_timestamp p))) s1"
  have a: "a < length (objs s)"
    using assms(2) Some by (auto simp: wfMaps_def dest: addrOk_map_of)
  have i1: "aliasOk s1" unfolding s1_def using assms(1) by (intro aliasOk_modifyRequest) simp_all
  have i2: "aliasOk s2" unfolding s2_def using i1 by (rule aliasOk_stampEnd)
  have a2: "a < length (objs s2)" "chainAliased (objs s2 ! a)"
    using a stamped_aliased[of a s1] by (simp_all add: s2_def s1_def)
  have "aliasOk (s2\<lparr>fetches := fetches s2 @ [(f_requestId p, a)]\<rparr>)"
    using i2 a2 by (auto simp: aliasOk_def aliased_snoc)
  moreover have "aliasOk (finalizeRequest opts (f_requestId p) a s2)"
    using i2 a2 by (rule aliasOk_finalize)
  ultimately show ?thesis
    using Some by (simp add: handleLoadingFinished_def Let_def s1_def s2_def)
qed

lemma aliasOk_LoadingFailed:
  assumes "aliasOk s" and "wfMaps s"
  shows "aliasOk (handleLoadingFailed opts p s)"
proof (cases "map_of (pending s) (x_requestId p)")
  case None
  then show ?thesis using assms by (simp add: handleLoadingFailed_def)
next
  case (Some a)
  define s1 where "s1 = modifyRequest a
                     (\<lambda>r. if status r = 0 then r\<lparr>status := 0, statusText := errorText p\<rparr>
                          else r) s"
  define s2 where "s2 = modify a (stampEnd (toWallTimeMs s1 (x_timestamp p))) s1"
  have a: "a < length (objs s)"
    using assms(2) Some by (auto simp: wfMaps_def dest: addrOk_map_of)
  have i1: "aliasOk s1" unfolding s1_def using assms(1) by (intro aliasOk_modifyRequest) simp_all
  have i2: "aliasOk s2" unfolding s2_def using i1 by (rule aliasOk_stampEnd)
  have a2: "a < length (objs s2)" "chainAliased (objs s2 ! a)"
    using a stamped_aliased[of a s1] by (simp_all add: s2_def s1_def)
  have "aliasOk (finalizeRequest opts (x_requestId p) a s2)"
    using i2 a2 by (rule aliasOk_finalize)
  then show ?thesis
    using Some by (simp add: handleLoadingFailed_def Let_def s1_def s2_def)
qed

lemma aliasOk_settle:
  assumes "aliasOk s"
  shows "aliasOk (bodyFetchSettled opts k outcome s)"
proof (cases "k < length (fetches s)")
  case False
  then show ?thesis using assms by (simp add: bodyFetchSettled_def)
next
  case True
  obtain i a where ia: "fetches s ! k = (i, a)" by (cases "fetches s ! k")
  have mem: "(i, a) \<in> set (fetches s)" using True ia by (metis nth_mem)
  have fs: "aliased (objs s) (fetches s)" using assms by (simp add: aliasOk_def)
  have a: "a < length (objs s)" "chainAliased (objs s ! a)"
    using fs mem unfolding aliased_def by blast+
  define s1 where "s1 = s\<lparr>fetches := take k (fetches s) @ drop (Suc k) (fetches s)\<rparr>"
  have sub: "set (take k (fetches s) @ drop (Suc k) (fetches s)) \<subseteq> set (fetches s)"
    by (auto dest: in_set_takeD in_set_dropD)
  have "aliased (objs s) (take k (fetches s) @ drop (Suc k) (fetches s))"
    by (rule aliased_subset[OF fs sub])
  then have i1: "aliasOk s1"
    unfolding s1_def using assms by (simp add: aliasOk_def)
  have a1: "a < length (objs s1)" "chainAliased (objs s1 ! a)"
    using a by (simp_all add: s1_def)
  have fin1: "aliasOk (finalizeRequest opts i a s1)"
    using i1 a1 by (rule aliasOk_finalize)
  have fin2: "\<And>body b64. aliasOk (finalizeRequest opts i a
          (modifyRequest a (\<lambda>r. r\<lparr>responseBody := Some (truncateBody opts body b64)\<rparr>) s1))"
  proof -
    fix body b64
    have "aliasOk (modifyRequest a (\<lambda>r. r\<lparr>responseBody := Some (truncateBody opts body b64)\<rparr>) s1)"
      using i1 by (intro aliasOk_modifyRequest) simp_all
    then show "aliasOk (finalizeRequest opts i a
          (modifyRequest a (\<lambda>r. r\<lparr>responseBody := Some (truncateBody opts body b64)\<rparr>) s1))"
      using a1 by (intro aliasOk_finalize) simp_all
  qed
  show ?thesis
  proof (cases outcome)
    case Rejected
    then show ?thesis using True ia fin1 by (simp add: bodyFetchSettled_def s1_def)
  next
    case (Fulfilled res)
    show ?thesis
    proof (cases res)
      case None
      then show ?thesis using True ia fin1 Fulfilled by (simp add: bodyFetchSettled_def s1_def)
    next
      case (Some bb)
      obtain body b64 where bb: "bb = (body, b64)" by (cases bb)
      show ?thesis
        using True ia Fulfilled Some bb fin2[of body b64] by (simp add: bodyFetchSettled_def s1_def)
    qed
  qed
qed

lemma aliasOk_clear: "aliasOk s \<Longrightarrow> aliasOk (clear s)"
  by (simp add: aliasOk_def clear_def)

lemma aliasOk_step: "aliasOk s \<Longrightarrow> wfMaps s \<Longrightarrow> aliasOk (step opts s e)"
  by (cases e)
     (simp_all add: aliasOk_RequestWillBeSent aliasOk_ResponseReceived aliasOk_LoadingFinished
        aliasOk_LoadingFailed aliasOk_settle aliasOk_clear)

lemma aliasOk_run: "aliasOk s \<Longrightarrow> ingesterInv s \<Longrightarrow> aliasOk (run opts s es)"
proof (induction es arbitrary: s)
  case Nil
  then show ?case by (simp add: run_def)
next
  case (Cons e es)
  have "aliasOk (step opts s e)" using Cons.prems by (simp add: aliasOk_step ingesterInv_def)
  moreover have "ingesterInv (step opts s e)" using Cons.prems(2) by (rule ingesterInv_step)
  ultimately show ?case using Cons.IH by (simp add: run_Cons)
qed

section \<open>Preflight pairing\<close>





lemma createdIds_links: "createdIds s = map fst (links s)"
  by (simp add: createdIds_def links_def)

lemma links_modify:
  assumes "rid (request (f (objs s ! a))) = rid (request (objs s ! a))"
    and "preflightFor (request (f (objs s ! a))) = preflightFor (request (objs s ! a))"
    and "preflightRequestId (request (f (objs s ! a))) = preflightRequestId (request (objs s ! a))"
  shows "links (modify a f s) = links s"
proof (cases "a < length (objs s)")
  case True
  then show ?thesis using assms by (simp add: links_def map_update list_update_same_conv)
next
  case False
  then show ?thesis by (simp add: links_def list_update_beyond)
qed

lemma links_modifyRequest:
  assumes "\<And>r. rid (f r) = rid r" and "\<And>r. preflightFor (f r) = preflightFor r"
    and "\<And>r. preflightRequestId (f r) = preflightRequestId r"
  shows "links (modifyRequest a f s) = links s"
  unfolding modifyRequest_def using assms by (intro links_modify) simp_all

lemma links_finalize [simp]: "links (finalizeRequest opts k a s) = links s"
  by (simp add: links_def)









lemma links_fetches [simp]: "links (s\<lparr>fetches := x\<rparr>) = links s"
  by (simp add: links_def)

lemma links_stampEnd [simp]: "links (modify b (stampEnd t) s) = links s"
  by (intro links_modify) simp_all














lemma mem_update_other:
  "(k', v) \<in> set al \<Longrightarrow> k' \<noteq> k \<Longrightarrow> (k', v) \<in> set (AList.update k w al)"
  by (induction al) auto




text \<open>The set of created IDs only grows, and the invariant holds along every run.\<close>

lemma createdIds_detectPreflight: "createdIds (detectPreflight p u) = createdIds u"
  unfolding createdIds_def
  by (intro nth_equalityI) (simp_all add: detectPreflight_keeps[where g = rid])

lemma links_offset [simp]: "links (s\<lparr>timestampOffset := x\<rparr>) = links s"
  by (simp add: links_def)

lemma vis_offset [simp]: "vis (s\<lparr>timestampOffset := x\<rparr>) = vis s"
  by (simp add: vis_def fun_eq_iff)

lemma paired_offset [simp]: "paired (s\<lparr>timestampOffset := x\<rparr>) = paired s"
  by (simp add: paired_def preflightsOf_def)

lemma RequestWillBeSent_cases:
  assumes "\<not> shouldExclude opts (q_url (w_request p))"
  obtains t where "ingesterInv s \<longrightarrow> ingesterInv t" "paired t = paired s" "links t = links s"
    "pending t = pending s" "requests t = requests s"
    "handleRequestWillBeSent opts p s =
     (case (redirectResponse p, map_of (pending t) (w_requestId p)) of
             (Some rr, Some a) \<Rightarrow> modify a (recordRedirect p rr) t
           | _ \<Rightarrow>
             detectPreflight p
               (t\<lparr>objs := objs t @ [newEntry (nextIndex t) p],
                  pending := AList.update (w_requestId p) (length (objs t)) (pending t),
                  nextIndex := Suc (nextIndex t)\<rparr>))"
proof -
  define t where "t = (if timestampOffset s = None
                 then s\<lparr>timestampOffset := Some (wallTime p - w_timestamp p)\<rparr>
                 else s)"
  have "handleRequestWillBeSent opts p s =
     (case (redirectResponse p, map_of (pending t) (w_requestId p)) of
             (Some rr, Some a) \<Rightarrow> modify a (recordRedirect p rr) t
           | _ \<Rightarrow>
             detectPreflight p
               (t\<lparr>objs := objs t @ [newEntry (nextIndex t) p],
                  pending := AList.update (w_requestId p) (length (objs t)) (pending t),
                  nextIndex := Suc (nextIndex t)\<rparr>))"
    unfolding handleRequestWillBeSent_def t_def using assms by (simp only: Let_def if_False)
  moreover have "ingesterInv s \<longrightarrow> ingesterInv t" "paired t = paired s" "links t = links s"
    "pending t = pending s" "requests t = requests s"
    by (simp_all add: t_def)
  ultimately show ?thesis using that by blast
qed

lemma createdIds_RequestWillBeSent:
  "createdIds (handleRequestWillBeSent opts p s) = createdIds s \<or>
   createdIds (handleRequestWillBeSent opts p s) = createdIds s @ [w_requestId p]"
proof (cases "shouldExclude opts (q_url (w_request p))")
  case True
  then show ?thesis by (simp add: handleRequestWillBeSent_def)
next
  case False
  from RequestWillBeSent_cases[OF False, of s]
  obtain t where t: "links t = links s"
    and h: "handleRequestWillBeSent opts p s =
     (case (redirectResponse p, map_of (pending t) (w_requestId p)) of
             (Some rr, Some a) \<Rightarrow> modify a (recordRedirect p rr) t
           | _ \<Rightarrow>
             detectPreflight p
               (t\<lparr>objs := objs t @ [newEntry (nextIndex t) p],
                  pending := AList.update (w_requestId p) (length (objs t)) (pending t),
                  nextIndex := Suc (nextIndex t)\<rparr>))"
    by blast
  have c: "createdIds t = createdIds s" using t by (simp add: createdIds_links)
  have r: "\<And>a rr. createdIds (modify a (recordRedirect p rr) t) = createdIds s"
    using t by (simp add: createdIds_links links_modify)
  have n: "createdIds (detectPreflight p
               (t\<lparr>objs := objs t @ [newEntry (nextIndex t) p],
                  pending := AList.update (w_requestId p) (length (objs t)) (pending t),
                  nextIndex := Suc (nextIndex t)\<rparr>)) = createdIds s @ [w_requestId p]"
    unfolding createdIds_detectPreflight using c by (simp add: createdIds_def newEntry_def)
  show ?thesis unfolding h using r n by (simp split: option.splits)
qed

lemma links_step:
  assumes "\<And>p. e \<noteq> RequestWillBeSent p"
  shows "links (step opts s e) = links s"
proof (cases e)
  case (RequestWillBeSent p)
  then show ?thesis using assms by simp
next
  case (ResponseReceived p)
  then show ?thesis by (simp add: handleResponseReceived_def links_modifyRequest split: option.splits)
next
  case (LoadingFinished p cb)
  then show ?thesis
    by (simp add: handleLoadingFinished_def Let_def links_modifyRequest split: option.splits)
next
  case (LoadingFailed p)
  then show ?thesis
    by (simp add: handleLoadingFailed_def Let_def links_modifyRequest split: option.splits)
next
  case Clear
  then show ?thesis by (simp add: clear_def links_def)
next
  case (BodyFetchSettled k outcome)
  then show ?thesis
    by (simp add: bodyFetchSettled_def Let_def links_modifyRequest
        split: option.splits prod.splits FetchOutcome.splits)
qed

lemma createdIds_step:
  "\<exists>xs. createdIds (step opts s e) = createdIds s @ xs"
proof (cases "\<exists>p. e = RequestWillBeSent p")
  case True
  then obtain p where "e = RequestWillBeSent p" by blast
  then show ?thesis using createdIds_RequestWillBeSent[of opts p s] by auto
next
  case False
  then have "links (step opts s e) = links s" by (intro links_step) simp
  then show ?thesis by (simp add: createdIds_links)
qed

lemma distinct_createdIds_step:
  "distinct (createdIds (step opts s e)) \<Longrightarrow> distinct (createdIds s)"
  using createdIds_step[of opts s e] by auto





text \<open>
  Every body fetch settles in flight along a run without \<open>clear()\<close> in which each
  request ID has one record and one terminal event.
\<close>

lemma fetchOk_weaken: "fetchOk s (i # ids) \<Longrightarrow> fetchOk s ids"
  by (auto simp: fetchOk_def)

lemma fetchOk_cong:
  "pending t = pending s \<Longrightarrow> fetches t = fetches s \<Longrightarrow> fetchOk t ids = fetchOk s ids"
  by (simp add: fetchOk_def fetchIds_def)

lemma map_of_delete_other: "k \<noteq> i \<Longrightarrow> map_of (AList.delete i m) k = map_of m k"
  by (simp add: delete_conv')

lemma fetchOk_finalize:
  assumes "fetchOk t ids" and "i \<notin> set (fetchIds t)"
  shows "fetchOk (finalizeRequest opts i a t) ids"
proof -
  have "\<And>k b. (k, b) \<in> set (fetches t) \<Longrightarrow> k \<noteq> i"
    using assms(2) unfolding fetchIds_def by force
  then show ?thesis
    using assms(1) unfolding fetchOk_def fetchIds_def
    by (auto simp: map_of_delete_other)
qed

lemma fetchOk_terminal:
  assumes "fetchOk s (i # ids)" and "map_of (pending s) i = Some a"
    and "pending t = pending s" "fetches t = fetches s"
  shows "fetchOk (finalizeRequest opts i a t) ids"
    and "fetchOk (t\<lparr>fetches := fetches t @ [(i, a)]\<rparr>) ids"
proof -
  have w: "fetchOk t ids" using assms(1,3,4) fetchOk_weaken fetchOk_cong by blast
  have "i \<notin> set (fetchIds t)" using assms(1,4) by (auto simp: fetchOk_def fetchIds_def)
  then show "fetchOk (finalizeRequest opts i a t) ids" using w by (intro fetchOk_finalize)
  show "fetchOk (t\<lparr>fetches := fetches t @ [(i, a)]\<rparr>) ids"
    using assms unfolding fetchOk_def fetchIds_def by auto
qed

lemma fetchOk_settle:
  assumes "fetchOk s ids"
  shows "fetchOk (bodyFetchSettled opts k outcome s) ids"
proof (cases "k < length (fetches s)")
  case False
  then show ?thesis using assms by (simp add: bodyFetchSettled_def)
next
  case True
  obtain i a where ia: "fetches s ! k = (i, a)" by (cases "fetches s ! k")
  define fs where "fs = take k (fetches s) @ drop (Suc k) (fetches s)"
  define s1 where "s1 = s\<lparr>fetches := fs\<rparr>"
  have d: "distinct (map fst (fetches s))" using assms by (simp add: fetchOk_def fetchIds_def)
  from nth_removed[OF d True] ia
  have n1: "i \<notin> set (fetchIds s1)" and n2: "distinct (fetchIds s1)"
    by (simp_all add: fs_def s1_def fetchIds_def)
  have sub: "set fs \<subseteq> set (fetches s)"
    unfolding fs_def by (auto dest: in_set_takeD in_set_dropD)
  then have sub2: "set (fetchIds s1) \<subseteq> set (fetchIds s)"
    unfolding s1_def fetchIds_def by auto
  have dj: "distinct ids" "set (fetchIds s) \<inter> set ids = {}"
    using assms unfolding fetchOk_def by auto
  have d1: "distinct (fetchIds s1 @ ids)" using n2 sub2 dj by auto
  have pw: "\<forall>(k, a) \<in> set (fetches s1). map_of (pending s1) k = Some a"
    using assms sub unfolding fetchOk_def s1_def by auto
  have i1: "fetchOk s1 ids"
    unfolding fetchOk_def using pw d1 by simp
  have fin: "\<And>t :: NetworkCapture. pending t = pending s1 \<Longrightarrow> fetches t = fetches s1 \<Longrightarrow>
      fetchOk (finalizeRequest opts i a t) ids"
  proof -
    fix t :: NetworkCapture assume e: "pending t = pending s1" "fetches t = fetches s1"
    have "fetchOk t ids" using i1 fetchOk_cong[OF e] by simp
    moreover have "i \<notin> set (fetchIds t)" using n1 e by (simp add: fetchIds_def)
    ultimately show "fetchOk (finalizeRequest opts i a t) ids" by (rule fetchOk_finalize)
  qed
  show ?thesis
  proof (cases outcome)
    case Rejected
    then show ?thesis using True ia fin[of s1] by (simp add: bodyFetchSettled_def s1_def fs_def)
  next
    case (Fulfilled res)
    show ?thesis
    proof (cases res)
      case None
      then show ?thesis using True ia fin[of s1] Fulfilled by (simp add: bodyFetchSettled_def s1_def fs_def)
    next
      case (Some bb)
      obtain body b64 where bb: "bb = (body, b64)" by (cases bb)
      show ?thesis
        using True ia Fulfilled Some bb
          fin[of "modifyRequest a (\<lambda>r. r\<lparr>responseBody := Some (truncateBody opts body b64)\<rparr>) s1"]
        by (simp add: bodyFetchSettled_def s1_def fs_def)
    qed
  qed
qed

lemma fetchOk_RequestWillBeSent:
  assumes "fetchOk s ids" and "ingesterInv s"
    and "distinct (createdIds (handleRequestWillBeSent opts p s))"
  shows "fetchOk (handleRequestWillBeSent opts p s) ids"
proof (cases "shouldExclude opts (q_url (w_request p))")
  case True
  then show ?thesis using assms by (simp add: handleRequestWillBeSent_def)
next
  case False
  from RequestWillBeSent_cases[OF False, of s]
  obtain t where t: "links t = links s" "pending t = pending s" "requests t = requests s"
    and h: "handleRequestWillBeSent opts p s =
     (case (redirectResponse p, map_of (pending t) (w_requestId p)) of
             (Some rr, Some a) \<Rightarrow> modify a (recordRedirect p rr) t
           | _ \<Rightarrow>
             detectPreflight p
               (t\<lparr>objs := objs t @ [newEntry (nextIndex t) p],
                  pending := AList.update (w_requestId p) (length (objs t)) (pending t),
                  nextIndex := Suc (nextIndex t)\<rparr>))"
    by blast
  define u where "u = t\<lparr>objs := objs t @ [newEntry (nextIndex t) p],
                  pending := AList.update (w_requestId p) (length (objs t)) (pending t),
                  nextIndex := Suc (nextIndex t)\<rparr>"
  have ft: "fetches (handleRequestWillBeSent opts p s) = fetches s"
    by (simp add: handleRequestWillBeSent_def Let_def split: option.splits)
  have r: "\<And>a rr. handleRequestWillBeSent opts p s = modify a (recordRedirect p rr) t \<Longrightarrow>
      fetchOk (handleRequestWillBeSent opts p s) ids"
  proof -
    fix a rr assume e: "handleRequestWillBeSent opts p s = modify a (recordRedirect p rr) t"
    have "pending (handleRequestWillBeSent opts p s) = pending s" unfolding e using t(2) by simp
    then show "fetchOk (handleRequestWillBeSent opts p s) ids" using assms(1) ft fetchOk_cong by blast
  qed
  have n: "handleRequestWillBeSent opts p s = detectPreflight p u \<Longrightarrow>
      fetchOk (handleRequestWillBeSent opts p s) ids"
  proof -
    assume e: "handleRequestWillBeSent opts p s = detectPreflight p u"
    have pe: "pending (handleRequestWillBeSent opts p s) =
        AList.update (w_requestId p) (length (objs t)) (pending s)"
      unfolding e using t(2) by (simp add: u_def)
    have "createdIds t = createdIds s" using t(1) by (simp add: createdIds_links)
    then have "createdIds (handleRequestWillBeSent opts p s) = createdIds s @ [w_requestId p]"
      unfolding e createdIds_detectPreflight by (simp add: createdIds_def u_def newEntry_def)
    then have fresh: "w_requestId p \<notin> set (createdIds s)" using assms(3) by simp
    have ne: "\<And>k a. (k, a) \<in> set (fetches s) \<Longrightarrow> k \<noteq> w_requestId p"
    proof -
      fix k a assume "(k, a) \<in> set (fetches s)"
      then have "a < length (objs s)" "rid (request (objs s ! a)) = k"
        using assms(2) by (auto simp: ingesterInv_def wfMaps_def addrOk_def)
      then have "createdIds s ! a = k" "a < length (createdIds s)" by (simp_all add: createdIds_def)
      then have "k \<in> set (createdIds s)" by (metis nth_mem)
      then show "k \<noteq> w_requestId p" using fresh by auto
    qed
    have pw: "\<forall>(k, a) \<in> set (fetches s). map_of (pending s) k = Some a"
      using assms(1) by (simp add: fetchOk_def)
    have "\<forall>(k, a) \<in> set (fetches s).
        map_of (AList.update (w_requestId p) (length (objs t)) (pending s)) k = Some a"
    proof (intro ballI, clarify)
      fix k a assume m: "(k, a) \<in> set (fetches s)"
      then have "map_of (pending s) k = Some a" using pw by auto
      then show "map_of (AList.update (w_requestId p) (length (objs t)) (pending s)) k = Some a"
        using ne[OF m] by (simp add: update_conv')
    qed
    moreover have "fetchIds (handleRequestWillBeSent opts p s) = fetchIds s"
      using ft by (simp add: fetchIds_def)
    moreover have "distinct (fetchIds s @ ids)" using assms(1) by (simp add: fetchOk_def)
    ultimately show "fetchOk (handleRequestWillBeSent opts p s) ids"
      unfolding fetchOk_def ft pe by simp
  qed
  show ?thesis
  proof (cases "redirectResponse p")
    case None
    then have "handleRequestWillBeSent opts p s = detectPreflight p u" unfolding h u_def by simp
    then show ?thesis by (rule n)
  next
    case (Some rr)
    show ?thesis
    proof (cases "map_of (pending t) (w_requestId p)")
      case None
      then have "handleRequestWillBeSent opts p s = detectPreflight p u"
        unfolding h u_def using Some by simp
      then show ?thesis by (rule n)
    next
      case (Some a)
      then have "handleRequestWillBeSent opts p s = modify a (recordRedirect p rr) t"
        unfolding h using \<open>redirectResponse p = Some rr\<close> by simp
      then show ?thesis by (rule r)
    qed
  qed
qed

lemma fetchOk_step:
  assumes "fetchOk s (terminalId e @ ids)" and "ingesterInv s" and "e \<noteq> Clear"
    and "distinct (createdIds (step opts s e))"
  shows "fetchOk (step opts s e) ids"
proof (cases e)
  case (RequestWillBeSent p)
  have "fetchOk s ids" using assms(1) RequestWillBeSent by simp
  moreover have "distinct (createdIds (handleRequestWillBeSent opts p s))"
    using assms(4) RequestWillBeSent by simp
  ultimately have "fetchOk (handleRequestWillBeSent opts p s) ids"
    using assms(2) by (intro fetchOk_RequestWillBeSent)
  then show ?thesis using RequestWillBeSent by simp
next
  case (ResponseReceived p)
  have "pending (handleResponseReceived p s) = pending s" "fetches (handleResponseReceived p s) = fetches s"
    by (simp_all add: handleResponseReceived_def split: option.splits)
  then have "fetchOk (handleResponseReceived p s) ids = fetchOk s ids" by (rule fetchOk_cong)
  then show ?thesis using assms(1) ResponseReceived by simp
next
  case (LoadingFinished p cb)
  then have a: "fetchOk s (f_requestId p # ids)" using assms by simp
  show ?thesis
  proof (cases "map_of (pending s) (f_requestId p)")
    case None
    then show ?thesis using LoadingFinished fetchOk_weaken[OF a] by (simp add: handleLoadingFinished_def)
  next
    case (Some b)
    define s2 where "s2 = modify b (stampEnd (toWallTimeMs (modifyRequest b (\<lambda>r. r\<lparr>responseSize := encodedDataLength p\<rparr>) s) (f_timestamp p)))
        (modifyRequest b (\<lambda>r. r\<lparr>responseSize := encodedDataLength p\<rparr>) s)"
    have e: "pending s2 = pending s" "fetches s2 = fetches s"
      by (simp_all add: s2_def)
    from fetchOk_terminal[OF a Some e]
    show ?thesis using LoadingFinished Some
      by (simp add: handleLoadingFinished_def Let_def s2_def)
  qed
next
  case (LoadingFailed p)
  then have a: "fetchOk s (x_requestId p # ids)" using assms by simp
  show ?thesis
  proof (cases "map_of (pending s) (x_requestId p)")
    case None
    then show ?thesis using LoadingFailed fetchOk_weaken[OF a] by (simp add: handleLoadingFailed_def)
  next
    case (Some b)
    define s1 where "s1 = modifyRequest b
                     (\<lambda>r. if status r = 0 then r\<lparr>status := 0, statusText := errorText p\<rparr>
                          else r) s"
    define s2 where "s2 = modify b (stampEnd (toWallTimeMs s1 (x_timestamp p))) s1"
    have e: "pending s2 = pending s" "fetches s2 = fetches s"
      by (simp_all add: s2_def s1_def)
    from fetchOk_terminal(1)[OF a Some e]
    show ?thesis using LoadingFailed Some
      by (simp add: handleLoadingFailed_def Let_def s2_def s1_def)
  qed
next
  case Clear
  then show ?thesis using assms by simp
next
  case (BodyFetchSettled k outcome)
  then show ?thesis using assms by (simp add: fetchOk_settle)
qed

lemma distinct_createdIds_run:
  "distinct (createdIds (run opts s es)) \<Longrightarrow> distinct (createdIds s)"
proof (induction es arbitrary: s)
  case Nil
  then show ?case by (simp add: run_Nil)
next
  case (Cons e es)
  then have "distinct (createdIds (step opts s e))" by (simp add: run_Cons)
  then show ?case by (rule distinct_createdIds_step)
qed

lemma settles_of_fetchOk:
  assumes "fetchOk s ids" shows "settlesInFlight s e"
proof (cases e)
  case (BodyFetchSettled k outcome)
  show ?thesis
  proof (cases "k < length (fetches s)")
    case True
    obtain i a where ia: "fetches s ! k = (i, a)" by (cases "fetches s ! k")
    have "(i, a) \<in> set (fetches s)" using True ia by (metis nth_mem)
    then have "map_of (pending s) i = Some a"
      using assms unfolding fetchOk_def by auto
    then have "map_of (pending s) (fst (fetches s ! k)) = Some (snd (fetches s ! k))"
      using ia by simp
    then show ?thesis using BodyFetchSettled by (simp add: settlesInFlight_def)
  next
    case False
    then show ?thesis using BodyFetchSettled by (simp add: settlesInFlight_def)
  qed
qed (simp_all add: settlesInFlight_def)

lemma fetchOk_run:
  assumes "ingesterInv s" and "fetchOk s (terminalIds es)" and "Clear \<notin> set es"
    and "distinct (createdIds (run opts s es))"
  shows "fetchesSettleInFlight opts s es"
  using assms
proof (induction es arbitrary: s)
  case Nil
  then show ?case by simp
next
  case (Cons e es)
  have d: "distinct (createdIds (step opts s e))"
    using Cons.prems(4) unfolding run_Cons by (rule distinct_createdIds_run)
  have f: "fetchOk (step opts s e) (terminalIds es)"
    using Cons.prems(1,2,3) d by (intro fetchOk_step) auto
  have i: "ingesterInv (step opts s e)" using Cons.prems(1) by (rule ingesterInv_step)
  have "fetchesSettleInFlight opts (step opts s e) es"
    using Cons.IH[OF i f] Cons.prems(3,4) by (simp add: run_Cons)
  moreover have "settlesInFlight s e" using Cons.prems(2) by (rule settles_of_fetchOk)
  ultimately show ?case by simp
qed

lemma conformant_runs_settle_in_flight:
  assumes "Clear \<notin> set es" and "distinct (terminalIds es)"
    and "distinct (createdIds (run opts newCapture es))"
  shows "fetchesSettleInFlight opts newCapture es"
proof -
  have "fetchOk newCapture (terminalIds es)"
    using assms(2) by (simp add: fetchOk_def fetchIds_def newCapture_def)
  then show ?thesis
    using ingesterInv_newCapture assms(1,3) by (intro fetchOk_run)
qed

lemmas fixture4_defs = fetchedPreflightTrace_def reusedPreflightIdTrace_def stalePreflightTrace_def
  nestedPreflightTrace_def



text \<open>
  Each condition of the amended statement is needed.  When the ID of a preflight is used
  again, the second record replaces the first under that ID: the target still references
  \<open>pre\<close>, and the record stored as \<open>pre\<close> is no preflight.
\<close>

lemma reused_id_breaks_link:
  "map (preflightLinks (run DEFAULT_OPTIONS newCapture reusedPreflightIdTrace)) [''pre'', ''act''] =
     [Some (''pre'', None, None), Some (''act'', None, Some ''pre'')] \<and>
   createdIds (run DEFAULT_OPTIONS newCapture reusedPreflightIdTrace) = [''pre'', ''act'', ''pre'']"
  by (simp add: ingester_defs fixture_defs fixture2_defs fixture4_defs preflightLinks_def
      createdIds_def Let_def)

text \<open>
  When the body fetch of a preflight settles after \<open>clear()\<close>, the preflight is committed
  although its target, sent after the clear, never saw it: \<open>pre.preflightFor\<close> is
  \<open>act\<close> and \<open>act.preflightRequestId\<close> is unset.
\<close>

lemma stale_commit_breaks_pairing:
  "map (preflightLinks (run DEFAULT_OPTIONS newCapture stalePreflightTrace)) [''pre'', ''act''] =
     [Some (''pre'', Some ''act'', None), Some (''act'', None, None)] \<and>
   createdIds (run DEFAULT_OPTIONS newCapture stalePreflightTrace) = [''pre'', ''act''] \<and>
   preflightsOf (run DEFAULT_OPTIONS newCapture stalePreflightTrace) ''act'' = [''pre''] \<and>
   \<not> fetchesSettleInFlight DEFAULT_OPTIONS newCapture stalePreflightTrace"
  by (simp add: ingester_defs fixture_defs fixture2_defs fixture4_defs preflightLinks_def
      createdIds_def preflightsOf_def settlesInFlight_def Let_def)

text \<open>
  A request that is itself announced as a preflight never looks for preflights that wait
  for it: sent after \<open>pre\<close>, \<open>act\<close> stays without \<open>preflightRequestId\<close>.
\<close>

lemma nested_preflight_unpaired:
  "map (preflightLinks (run DEFAULT_OPTIONS newCapture nestedPreflightTrace)) [''pre'', ''act''] =
     [Some (''pre'', Some ''act'', None), Some (''act'', Some ''other'', None)] \<and>
   createdIds (run DEFAULT_OPTIONS newCapture nestedPreflightTrace) = [''pre'', ''act''] \<and>
   preflightsOf (run DEFAULT_OPTIONS newCapture nestedPreflightTrace) ''act'' = [''pre''] \<and>
   fetchesSettleInFlight DEFAULT_OPTIONS newCapture nestedPreflightTrace"
  by (simp add: ingester_defs fixture_defs fixture2_defs fixture4_defs preflightLinks_def
      createdIds_def preflightsOf_def settlesInFlight_def Let_def)

text \<open>
  A second preflight takes the reference as soon as it is sent, finalized or not: of the
  two finalized records, \<open>pre1.preflightFor\<close> is \<open>actual\<close> while
  \<open>actual.preflightRequestId\<close> is \<open>pre2\<close>, a record that is not in the store.
\<close>

lemma unfinished_second_preflight:
  "map (preflightLinks (run DEFAULT_OPTIONS newCapture unfinishedPreflightTrace))
     [''pre1'', ''actual'', ''pre2''] =
     [Some (''pre1'', Some ''actual'', None), Some (''actual'', None, Some ''pre2''), None] \<and>
   preflightsOf (run DEFAULT_OPTIONS newCapture unfinishedPreflightTrace) ''actual'' =
     [''pre1'', ''pre2'']"
  by (simp add: ingester_defs fixture_defs fixture2_defs unfinishedPreflightTrace_def
      preflightLinks_def preflightsOf_def Let_def)

section \<open>Length of the redirect chain\<close>

text \<open>
  C5 as stated fails in the two cases it names.  A redirect-bearing \<open>RequestSent\<close> that
  finds no in-flight record creates a fresh record with an empty chain; and when the first
  hop was dropped by an exclude pattern, the redirect-bearing event for the next hop finds
  no record either.  In both runs one redirect-bearing event was observed for \<open>R\<close> and
  the finalized record has a chain of length 0.
\<close>

theorem redirect_events_not_all_counted:
  "redirectBearingEvents orphanRedirectTrace ''R'' = 1 \<and>
   map_option (\<lambda>r. length (redirectChain r))
     (getRequest (run DEFAULT_OPTIONS newCapture orphanRedirectTrace) ''R'') = Some 0 \<and>
   redirectBearingEvents excludedHopTrace ''R'' = 1 \<and>
   map_option (\<lambda>r. length (redirectChain r))
     (getRequest (run excludeOldOptions newCapture excludedHopTrace) ''R'') = Some 0"
proof -
  have "redirectBearingEvents orphanRedirectTrace ''R'' = 1"
       "redirectBearingEvents excludedHopTrace ''R'' = 1"
    by (simp_all add: redirectBearingEvents_def fixture2_defs getEvent_def)
  moreover have "map_option (\<lambda>r. length (redirectChain r))
     (getRequest (run DEFAULT_OPTIONS newCapture orphanRedirectTrace) ''R'') = Some 0"
    by (simp add: ingester_defs fixture_defs fixture2_defs Let_def)
  moreover have "map_option (\<lambda>r. length (redirectChain r))
     (getRequest (run excludeOldOptions newCapture excludedHopTrace) ''R'') = Some 0"
    by (simp add: ingester_defs fixture_defs fixture2_defs Let_def)
  ultimately show ?thesis by simp
qed

text \<open>
  C5, amended.  After every event sequence, the redirect chain of a finalized record has
  as many entries as there were redirect-bearing \<open>RequestSent\<close> events that passed the
  URL exclusion and found that record in flight.
\<close>

theorem redirect_chain_counts_applied_redirects:
  assumes "map_of (requests (run opts newCapture es)) k = Some a"
  shows "length (redirectChain (request (objs (run opts newCapture es) ! a))) =
         appliedRedirects opts newCapture es a"
proof -
  define s where "s = run opts newCapture es"
  have al: "aliasOk s" unfolding s_def by (intro aliasOk_run aliasOk_newCapture ingesterInv_newCapture)
  have mem: "(k, a) \<in> set (requests s)" using assms by (auto simp: s_def dest: map_of_SomeD)
  then have a: "a < length (objs s)" "chainAliased (objs s ! a)"
    using al by (auto simp: aliasOk_def aliased_def)
  then have "redirectChain (request (objs s ! a)) = pe_redirectChain (objs s ! a)"
    using al by (simp add: aliasOk_def chainsOk_def)
  moreover have "chainLen s a = chainLen newCapture a + appliedRedirects opts newCapture es a"
    unfolding s_def by (intro chainLen_run ingesterInv_newCapture)
  ultimately show ?thesis
    using a by (simp add: chainLen_def s_def newCapture_def)
qed

theorem redirect_chain_counts_applied_redirects_witness:
  "map_of (requests (run DEFAULT_OPTIONS newCapture redirectTrace)) ''R'' = Some 0 \<and>
   appliedRedirects DEFAULT_OPTIONS newCapture redirectTrace 0 = 2 \<and>
   length (redirectChain (request (objs (run DEFAULT_OPTIONS newCapture redirectTrace) ! 0))) = 2"
proof -
  have m: "map_of (requests (run DEFAULT_OPTIONS newCapture redirectTrace)) ''R'' = Some 0"
    by (simp add: ingester_defs fixture_defs fixture2_defs Let_def)
  have c: "appliedRedirects DEFAULT_OPTIONS newCapture redirectTrace 0 = 2"
    by (simp add: appliedRedirect_def ingester_defs fixture_defs fixture2_defs Let_def)
  show ?thesis
    using redirect_chain_counts_applied_redirects[OF m] m c by simp
qed

section \<open>Facts about the correlator\<close>

lemmas corr_defs = correlateRequest_def chainInheritance_def matchByChain_def matchByStackTrace_def
  timingCandidates_def inWindow_def computeScore_def semanticScore_def patterns_def
  isLikelyBackground_def BACKGROUND_PATTERNS_def toLowerCase_def lowerChar_def optGapAt_def
  anyChar_def lineTerminator_def findIndex_def truthy_def truthyNum_def proximity_def
  DEFAULT_CORRELATION_OPTIONS_def

lemmas corr_fixture_defs = mkAction_def mkRequest_def lateAction_def earlyRequest_def
  oldAction_def chainParent_def chainChild_def lateChild_def lateParent_def testToken_def
  testParse_def authPost_def dependent_def clickAction_def preflightP_def actualX_def
  scriptInitiator_def preflightInitiator_def

lemmas auth_defs = detectAuthFlow_def tokenValueOf_def tokenOf_def getProp_def jsOr_def
  jsTruthy_def authenticatedBy_def authUrl_def toLowerCase_def lowerChar_def optGapAt_def
  truthy_def

lemmas layer_defs = correlateRequest_def chainInheritance_def matchByChain_def matchByStackTrace_def
      timingCandidates_def inWindow_def findIndex_def truthy_def truthyNum_def
      DEFAULT_CORRELATION_OPTIONS_def Let_def attribute_def
      preflightP_def actualX_def clickAction_def mkRequest_def mkAction_def
      preflightInitiator_def scriptInitiator_def




section \<open>The proximity term\<close>

lemma early_request_no_semantics: "semanticScore lateAction earlyRequest = 0"
  by (simp add: corr_defs corr_fixture_defs Let_def)

lemma early_request_not_background: "\<not> isLikelyBackground earlyRequest"
  by (simp add: corr_defs corr_fixture_defs Let_def)

lemma proximity_above_cap: "d < 0 \<Longrightarrow> proximity d > 35 / 100"
  by (simp add: proximity_def)

text \<open>
  C7.  The proximity term is \<open>0.35 * exp (- delta / 150)\<close>, and the source comments it as
  "Time proximity (0 to 0.35)".  For a negative delta the exponent is positive, so the term
  is larger than 0.35: at the admitted skew of -10 ms the term, and the score of a request
  with no semantic bonus, exceed 0.35.
\<close>

theorem negative_delta_exceeds_cap:
  "inWindow DEFAULT_CORRELATION_OPTIONS earlyRequest lateAction \<and>
   startTime (timing earlyRequest) - timestamp lateAction = -10 \<and>
   proximity (-10) > 35 / 100 \<and>
   computeScore lateAction earlyRequest > 35 / 100"
proof -
  have w: "inWindow DEFAULT_CORRELATION_OPTIONS earlyRequest lateAction"
    by (simp add: inWindow_def DEFAULT_CORRELATION_OPTIONS_def corr_fixture_defs)
  have d: "startTime (timing earlyRequest) - timestamp lateAction = -10"
    by (simp add: corr_fixture_defs)
  have p: "proximity (-10) > 35 / 100" by (simp add: proximity_def)
  have "computeScore lateAction earlyRequest = max 0 (min 1 (proximity (-10)))"
    using early_request_no_semantics early_request_not_background d by (simp add: computeScore_def Let_def)
  then show ?thesis using w d p by simp
qed

section \<open>Auth-flow chains\<close>

text \<open>
  C8.  \<open>detectAuthFlow\<close> reads the header under the two names \<open>Authorization\<close> and
  \<open>authorization\<close> only.  A dependent request that sends the token under
  \<open>AUTHORIZATION\<close> is not collected: for a qualifying auth request and such a dependent
  no auth-flow chain is emitted.
\<close>

theorem uppercase_authorization_missed:
  "httpMethod authPost = ''POST'' \<and> authUrl (url authPost) \<and>
   tokenValueOf testParse authPost = Some testToken \<and>
   startTime (timing authPost) < startTime (timing (dependent ''AUTHORIZATION'')) \<and>
   map_option (\<lambda>h. includesStr h (take 20 testToken))
     (map_of (requestHeaders (dependent ''AUTHORIZATION'')) ''AUTHORIZATION'') = Some True \<and>
   detectAuthFlow testParse [authPost, dependent ''AUTHORIZATION''] = None"
  by (simp add: auth_defs corr_fixture_defs Let_def)

text \<open>Under the two spellings the source reads, the same group yields the chain.\<close>

lemma standard_authorization_found:
  "detectAuthFlow testParse [authPost, dependent ''Authorization''] =
     Some \<lparr>chainType = AuthFlow, requestIds = [''auth'', ''me'']\<rparr> \<and>
   detectAuthFlow testParse [authPost, dependent ''authorization''] =
     Some \<lparr>chainType = AuthFlow, requestIds = [''auth'', ''me'']\<rparr>"
  by (simp add: auth_defs corr_fixture_defs Let_def)

section \<open>When the temporal chain search runs\<close>











section \<open>Attribution is not set once\<close>

lemma correlateAction_state:
  "snd (correlateAction parse opts actions actionId reqs) =
     (case findIndex (\<lambda>a. aid a = actionId) actions of
        None \<Rightarrow> (reqs, actions)
      | Some ai \<Rightarrow>
          (case correlateActionLoop opts actions actionId [0..<length reqs] (reqs, [], 0) of
             (reqs', correlated, t) \<Rightarrow>
               (reqs',
                if length correlated = 0 then actions
                else actions[ai := (actions ! ai)\<lparr>resultingRequestIds :=
                       map rid (sort_key (\<lambda>r. startTime (timing r))
                                  (map (\<lambda>i. reqs' ! i) correlated))\<rparr>])))"
  by (simp add: correlateAction_def Let_def split: option.splits prod.splits)

lemma correlateActionLoop_other:
  "j \<notin> set idxs \<Longrightarrow>
   fst (correlateActionLoop opts actions k idxs (reqs, c, t)) ! j = reqs ! j"
  by (induction idxs arbitrary: reqs c t) (auto split: option.splits)

lemma score_preflight: "computeScore clickAction preflightP = 35 / 100"
  by (simp add: corr_defs corr_fixture_defs Let_def)

lemma score_actual: "computeScore clickAction actualX = 5 / 10"
  by (simp add: corr_defs corr_fixture_defs Let_def)

lemma first_preflight_match: "correlateRequest DEFAULT_CORRELATION_OPTIONS [clickAction] preflightP [preflightP, actualX] =
   Some timingOnlyMatch"
  using score_preflight by (simp add: layer_defs timingOnlyMatch_def)

lemma first_actual_match: "correlateRequest DEFAULT_CORRELATION_OPTIONS [clickAction] actualX
     [attribute ''A1'' timingOnlyMatch preflightP, actualX] = Some timingSemanticMatch"
  using score_actual by (simp add: layer_defs timingSemanticMatch_def)

lemma second_preflight_match: "correlateRequest DEFAULT_CORRELATION_OPTIONS
     [clickAction\<lparr>resultingRequestIds := [''p'', ''x1'']\<rparr>]
     (attribute ''A1'' timingOnlyMatch preflightP)
     [attribute ''A1'' timingOnlyMatch preflightP, attribute ''A1'' timingSemanticMatch actualX] = Some chainMatch"
  by (simp add: layer_defs chainMatch_def)

lemma first_call_loop:
  "correlateActionLoop DEFAULT_CORRELATION_OPTIONS [clickAction] ''A1'' [0..<2]
     ([preflightP, actualX], [], 0) =
   ([attribute ''A1'' timingOnlyMatch preflightP, attribute ''A1'' timingSemanticMatch actualX], [0, 1], 85 / 100)"
proof -
  have u: "[0..<2] = [0, Suc 0]" by (simp add: upt_rec)
  have a: "aid clickAction = ''A1''" by (simp add: clickAction_def mkAction_def)
  show ?thesis
    unfolding u using first_preflight_match first_actual_match a by (simp add: timingOnlyMatch_def timingSemanticMatch_def)
qed

lemma first_call_state:
  "snd firstCall =
     ([attribute ''A1'' timingOnlyMatch preflightP, attribute ''A1'' timingSemanticMatch actualX],
      [clickAction\<lparr>resultingRequestIds := [''p'', ''x1'']\<rparr>])"
proof -
  have f: "findIndex (\<lambda>a. aid a = ''A1'') [clickAction] = Some 0"
    by (simp add: findIndex_def clickAction_def mkAction_def)
  have l: "length [preflightP, actualX] = 2" by simp
  show ?thesis
    unfolding firstCall_def correlateAction_state f l first_call_loop
    by (simp add: attribute_def preflightP_def actualX_def mkRequest_def)
qed

text \<open>
  C9 as stated fails.  \<open>correlateAction\<close> evaluates every request, attributed or not.
  The first call attributes the preflight by timing (0.35, \<open>timing_only\<close>) and then its
  target; the second call, on the same action, finds the target attributed and overwrites
  the preflight's attribution with (0.85, \<open>chain\<close>).
\<close>

theorem correlateAction_overwrites_attribution:
  "attribution (fst (snd firstCall) ! 0) = (Some ''A1'', Some (35 / 100), Some TimingOnly) \<and>
   attribution (fst (snd secondCall) ! 0) = (Some ''A1'', Some (85 / 100), Some Chain)"
proof -
  let ?acts = "[clickAction\<lparr>resultingRequestIds := [''p'', ''x1'']\<rparr>]"
  let ?reqs = "[attribute ''A1'' timingOnlyMatch preflightP, attribute ''A1'' timingSemanticMatch actualX]"
  have f: "findIndex (\<lambda>a. aid a = ''A1'') ?acts = Some 0"
    by (simp add: findIndex_def clickAction_def mkAction_def)
  have a: "aid (?acts ! 0) = ''A1''" by (simp add: clickAction_def mkAction_def)
  have u: "[0..<length ?reqs] = [0, Suc 0]" by (simp add: upt_rec)
  have "fst (snd secondCall) ! 0 =
        fst (correlateActionLoop DEFAULT_CORRELATION_OPTIONS ?acts ''A1'' [0, Suc 0] (?reqs, [], 0)) ! 0"
    unfolding secondCall_def first_call_state by (simp add: correlateAction_state f u split: prod.splits)
  also have "\<dots> = attribute ''A1'' chainMatch (attribute ''A1'' timingOnlyMatch preflightP)"
    apply (subst correlateActionLoop.simps(2))
    using second_preflight_match a
    apply (simp add: correlateActionLoop_other chainMatch_def del: correlateActionLoop.simps)
    done
  finally have 2: "fst (snd secondCall) ! 0 = attribute ''A1'' chainMatch (attribute ''A1'' timingOnlyMatch preflightP)" .
  have 1: "fst (snd firstCall) ! 0 = attribute ''A1'' timingOnlyMatch preflightP"
    by (simp add: first_call_state)
  show ?thesis
    unfolding 1 2 by (simp add: attribution_def attribute_def timingOnlyMatch_def chainMatch_def)
qed

lemma correlateAllLoop_keeps:
  "j < length reqs \<Longrightarrow> truthy (correlatedActionId (reqs ! j)) \<Longrightarrow>
   fst (correlateAllLoop opts actions idxs (reqs, results)) ! j = reqs ! j"
proof (induction idxs arbitrary: reqs results)
  case Nil
  then show ?case by simp
next
  case (Cons i idxs)
  show ?case
  proof (cases "truthy (correlatedActionId (reqs ! i))")
    case True
    then show ?thesis using Cons by simp
  next
    case False
    then have ij: "i \<noteq> j" using Cons.prems by auto
    show ?thesis
    proof (cases "correlateRequest opts actions (reqs ! i) reqs")
      case None
      then show ?thesis using False Cons by simp
    next
      case (Some m)
      let ?reqs' = "reqs[i := attribute (aid (actions ! actionRef m)) m (reqs ! i)]"
      have "j < length ?reqs'" "truthy (correlatedActionId (?reqs' ! j))" "?reqs' ! j = reqs ! j"
        using Cons.prems ij by simp_all
      then show ?thesis
        using Cons.IH[of ?reqs'] False Some by (simp add: Let_def)
    qed
  qed
qed

text \<open>
  C9, amended.  \<open>correlateAll\<close> skips every record whose \<open>correlatedActionId\<close> is set
  (and not empty): such a record, hence its attribution, is the same after the call.
\<close>

theorem correlateAll_keeps_attribution:
  assumes "j < length reqs" and "truthy (correlatedActionId (reqs ! j))"
  shows "fst (snd (correlateAll parse opts actions reqs)) ! j = reqs ! j \<and>
         attribution (fst (snd (correlateAll parse opts actions reqs)) ! j) = attribution (reqs ! j)"
proof -
  have "fst (snd (correlateAll parse opts actions reqs)) =
        fst (correlateAllLoop opts actions [0..<length reqs] (reqs, []))"
    by (simp add: correlateAll_def Let_def split: prod.splits)
  then show ?thesis using correlateAllLoop_keeps[OF assms] by simp
qed

theorem correlateAll_keeps_attribution_witness:
  "0 < length [chainParent, chainChild] \<and>
   truthy (correlatedActionId ([chainParent, chainChild] ! 0)) \<and>
   attribution (fst (snd (correlateAll testParse DEFAULT_CORRELATION_OPTIONS [oldAction]
      [chainParent, chainChild])) ! 0) = (Some ''A1'', Some (35 / 100), Some TimingOnly)"
proof -
  have h1: "0 < length [chainParent, chainChild]" by simp
  have h2: "truthy (correlatedActionId ([chainParent, chainChild] ! 0))"
    by (simp add: truthy_def chainParent_def)
  have "attribution ([chainParent, chainChild] ! 0) = (Some ''A1'', Some (35 / 100), Some TimingOnly)"
    by (simp add: attribution_def chainParent_def)
  then show ?thesis
    using correlateAll_keeps_attribution[OF h1 h2, of testParse DEFAULT_CORRELATION_OPTIONS "[oldAction]"]
      h1 h2 by simp
qed

end
